theory Spec2Isabelle
  imports Main "HOL-Library.AList"
begin

section \<open>The e-mail nurture sequencer of the recruitment APK service\<close>

text \<open>
  The development embeds \<^verbatim>\<open>process_email_sequence\<close> and the functions it calls
  (\<^verbatim>\<open>get_deal_info\<close>, \<^verbatim>\<open>get_sequence_status\<close>, \<^verbatim>\<open>get_last_email_sent\<close>,
  \<^verbatim>\<open>update_deal_field\<close>, \<^verbatim>\<open>send_sequence_email\<close>) of
  \<^verbatim>\<open>projects/recruitment-apk-automation/email_automation_service.py\<close>.

  The CRM deal, the clock and the SMTP server are outside the program.  They are modelled
  as follows.
  \<^item> The deal is an association list from field keys to JSON scalars; it is threaded
    through the run as explicit state.
  \<^item> Everything the outside world decides while one schedule entry is processed is
    collected in a record \<open>step_env\<close>: the system clock, the fields other parties wrote
    into the deal while the run was waiting, what each of the two GET requests
    answers, whether the SMTP transaction goes through, and whether each PUT is
    committed.
  \<^item> A run returns the list of things that happened (\<open>event\<close>), the deal as it is
    left, and how it ended: the loop ran to its end, it returned early, or an exception
    left the function.  \<^verbatim>\<open>pipedrive_request\<close> and \<^verbatim>\<open>send_sequence_email\<close> catch every
    exception of the network calls, and the \<^verbatim>\<open>except\<close> clause around \<^verbatim>\<open>strptime\<close> catches
    a start date that does not parse.  Nothing catches the \<^verbatim>\<open>OverflowError\<close> of the two
    computations of the loop body that are done before the checks: the send date
    \<^verbatim>\<open>sent_date + timedelta(days=send_day)\<close>, which must not lie after the last day of the
    year 9999, and \<^verbatim>\<open>time.sleep(wait_seconds)\<close>, which refuses a wait of more than about
    292 years.
  What is left out: log messages; the recipient address, the first name and the company,
  which only flow into the text of the message, and the text itself; bodies of API
  responses that are not JSON objects; the time zone (local time is UTC); what a platform
  does with a wait that \<^verbatim>\<open>time.sleep\<close> accepts (it is slept to its end; a platform that
  adds the wait to a clock of its own may refuse the last moments below the limit as well).
  A \<open>datetime\<close> is the number of microseconds since 0001-01-01T00:00:00.
\<close>

subsection \<open>Python strings and integers\<close>

text \<open>A \<open>string\<close> stands for a Python \<^verbatim>\<open>str\<close> whose code points are below 256.\<close>

definition is_digit :: "char \<Rightarrow> bool" where
  "is_digit c = (48 \<le> (of_char c :: nat) \<and> (of_char c :: nat) \<le> 57)"

definition digit_val :: "char \<Rightarrow> int" where
  "digit_val c = int (of_char c) - 48"

text \<open>
  The white space that \<^verbatim>\<open>int\<close> skips around a number, among the code points below 256:
  tab to carriage return, the space, U+0085 and U+00A0.
\<close>

definition py_isspace :: "char \<Rightarrow> bool" where
  "py_isspace c =
     (let n = (of_char c :: nat)
      in (9 \<le> n \<and> n \<le> 13) \<or> n = 32 \<or> n = 133 \<or> n = 160)"

definition digit_char :: "nat \<Rightarrow> char" where
  "digit_char n = char_of (48 + n)"

fun digits_of :: "nat \<Rightarrow> string" where
  "digits_of n = (if n < 10 then [digit_char n] else digits_of (n div 10) @ [digit_char (n mod 10)])"

declare digits_of.simps [simp del]

text \<open>\<^verbatim>\<open>str(i)\<close> for an integer, as the f-string \<^verbatim>\<open>f"Email {email_num}"\<close> uses it.\<close>

definition py_str_int :: "int \<Rightarrow> string" where
  "py_str_int i = (if i < 0 then CHR ''-'' # digits_of (nat (- i)) else digits_of (nat i))"

text \<open>\<^verbatim>\<open>pat in s\<close> for strings.\<close>

fun py_contains :: "string \<Rightarrow> string \<Rightarrow> bool" where
  "py_contains pat [] = (pat = [])"
| "py_contains pat (c # cs) = (take (length pat) (c # cs) = pat \<or> py_contains pat cs)"

text \<open>
  \<^verbatim>\<open>s.replace(pat, "")\<close> for a non-empty \<open>pat\<close>: every occurrence, found from left to right
  without overlap, is removed.
\<close>

function py_remove :: "string \<Rightarrow> string \<Rightarrow> string" where
  "py_remove pat [] = []"
| "py_remove pat (c # cs) =
     (if take (length pat) (c # cs) = pat then py_remove pat (drop (length pat - 1) cs)
      else c # py_remove pat cs)"
  by pat_completeness auto
termination
  by (relation "measure (\<lambda>(pat, s). length s)") auto

definition dec_value :: "string \<Rightarrow> int" where
  "dec_value ds = foldl (\<lambda>a c. 10 * a + digit_val c) 0 ds"

fun double_underscore :: "string \<Rightarrow> bool" where
  "double_underscore (a # b # cs) = ((a = CHR ''_'' \<and> b = CHR ''_'') \<or> double_underscore (b # cs))"
| "double_underscore _ = False"

text \<open>
  \<^verbatim>\<open>int(s)\<close> for a string: \<open>None\<close> stands for \<^verbatim>\<open>ValueError\<close>.  Leading and trailing
  white space is skipped, one sign is allowed, the digits may be grouped by single
  underscores, and more than 4300 digits are refused.
\<close>

definition py_int :: "string \<Rightarrow> int option" where
  "py_int s =
     (let t = dropWhile py_isspace s;
          neg = (t \<noteq> [] \<and> hd t = CHR ''-'');
          u = (if t \<noteq> [] \<and> (hd t = CHR ''+'' \<or> hd t = CHR ''-'') then tl t else t);
          body = takeWhile (\<lambda>c. is_digit c \<or> c = CHR ''_'') u;
          rest = dropWhile (\<lambda>c. is_digit c \<or> c = CHR ''_'') u;
          ds = filter is_digit body
      in if body = [] \<or> hd body = CHR ''_'' \<or> last body = CHR ''_'' \<or> double_underscore body
            \<or> 4300 < length ds \<or> \<not> list_all py_isspace rest
         then None
         else Some (if neg then - dec_value ds else dec_value ds))"

subsection \<open>The start date: \<^verbatim>\<open>datetime.strptime(apk_sent_date, "%Y-%m-%d")\<close>\<close>

type_synonym datetime = int

definition usec_per_day :: int where
  "usec_per_day = 86400000000"

definition is_leap :: "int \<Rightarrow> bool" where
  "is_leap y = (y mod 4 = 0 \<and> (y mod 100 \<noteq> 0 \<or> y mod 400 = 0))"

definition days_in_month :: "int \<Rightarrow> int \<Rightarrow> int" where
  "days_in_month y m =
     (if m = 2 then (if is_leap y then 29 else 28)
      else if m = 4 \<or> m = 6 \<or> m = 9 \<or> m = 11 then 30 else 31)"

definition days_before_year :: "int \<Rightarrow> int" where
  "days_before_year y = (y - 1) * 365 + (y - 1) div 4 - (y - 1) div 100 + (y - 1) div 400"

definition days_before_month :: "int \<Rightarrow> int \<Rightarrow> int" where
  "days_before_month y m = sum_list (map (days_in_month y) [1 .. m - 1])"

text \<open>The proleptic Gregorian ordinal of a date; 0001-01-01 has ordinal 1.\<close>

definition ymd2ord :: "int \<Rightarrow> int \<Rightarrow> int \<Rightarrow> int" where
  "ymd2ord y m d = days_before_year y + days_before_month y m + d"

text \<open>
  The month directive matches \<^verbatim>\<open>1[0-2]|0[1-9]|[1-9]\<close> and must be followed by the
  hyphen of the format; the result is the month and the text after the hyphen.
\<close>

definition match_month :: "string \<Rightarrow> (int \<times> string) option" where
  "match_month s =
     (case s of
        a # b # c # r \<Rightarrow>
          if a = CHR ''1'' \<and> b \<in> set ''012'' \<and> c = CHR ''-'' then Some (10 + digit_val b, r)
          else if a = CHR ''0'' \<and> is_digit b \<and> b \<noteq> CHR ''0'' \<and> c = CHR ''-'' then Some (digit_val b, r)
          else if is_digit a \<and> a \<noteq> CHR ''0'' \<and> b = CHR ''-'' then Some (digit_val a, c # r)
          else None
      | [a, b] \<Rightarrow> if is_digit a \<and> a \<noteq> CHR ''0'' \<and> b = CHR ''-'' then Some (digit_val a, []) else None
      | _ \<Rightarrow> None)"

text \<open>
  The day directive matches \<^verbatim>\<open>3[0-1]|[1-2]\d|0[1-9]|[1-9]| [1-9]\<close>, the first alternative
  that fits; the result is the day and the text that is left over.
\<close>

definition match_day :: "string \<Rightarrow> (int \<times> string) option" where
  "match_day s =
     (case s of
        [] \<Rightarrow> None
      | [a] \<Rightarrow> if is_digit a \<and> a \<noteq> CHR ''0'' then Some (digit_val a, []) else None
      | a # b # r \<Rightarrow>
          if a = CHR ''3'' \<and> b \<in> set ''01'' then Some (30 + digit_val b, r)
          else if a \<in> set ''12'' \<and> is_digit b then Some (10 * digit_val a + digit_val b, r)
          else if a = CHR ''0'' \<and> is_digit b \<and> b \<noteq> CHR ''0'' then Some (digit_val b, r)
          else if is_digit a \<and> a \<noteq> CHR ''0'' then Some (digit_val a, b # r)
          else if a = CHR '' '' \<and> is_digit b \<and> b \<noteq> CHR ''0'' then Some (digit_val b, r)
          else None)"

text \<open>
  \<open>None\<close> stands for the \<^verbatim>\<open>ValueError\<close> of \<^verbatim>\<open>strptime\<close>: the text does not match the
  format, text is left over, or the date does not exist.  Otherwise the result is
  midnight of the date.
\<close>

definition strptime_ymd :: "string \<Rightarrow> datetime option" where
  "strptime_ymd s =
     (case s of
        y1 # y2 # y3 # y4 # h # r \<Rightarrow>
          if is_digit y1 \<and> is_digit y2 \<and> is_digit y3 \<and> is_digit y4 \<and> h = CHR ''-'' then
            (case match_month r of
               None \<Rightarrow> None
             | Some (m, r') \<Rightarrow>
                 (case match_day r' of
                    None \<Rightarrow> None
                  | Some (d, r'') \<Rightarrow>
                      (let y = dec_value [y1, y2, y3, y4]
                       in if r'' \<noteq> [] \<or> y < 1 \<or> days_in_month y m < d then None
                          else Some ((ymd2ord y m d - 1) * usec_per_day))))
          else None
      | _ \<Rightarrow> None)"

subsection \<open>The limits of dates and waits, and the clock\<close>

text \<open>
  The last \<^verbatim>\<open>datetime\<close> is 9999-12-31T23:59:59.999999, whose day has the ordinal 3652059.
  Adding a \<^verbatim>\<open>timedelta\<close> to a \<^verbatim>\<open>datetime\<close> raises \<^verbatim>\<open>OverflowError\<close> when the sum lies after it.
\<close>

definition MAX_DATETIME :: datetime where
  "MAX_DATETIME = 3652059 * usec_per_day - 1"

text \<open>
  \<^verbatim>\<open>time.sleep\<close> converts the wait to the time type of CPython, a signed 64-bit count of
  nanoseconds, and raises \<^verbatim>\<open>OverflowError\<close> when the wait does not fit.  The longest wait
  it accepts, in microseconds:
\<close>

definition SLEEP_MAX :: int where
  "SLEEP_MAX = (2 ^ 63 - 1) div 1000"

text \<open>
  \<^verbatim>\<open>datetime.now()\<close> reads the system clock through the same type, as nanoseconds since
  1970-01-01 (the day with the ordinal 719163), cut off at both ends of its range.
  Whatever the system clock says, the reading lies between 1677-09-21 and 2262-04-11.
\<close>

definition UNIX_EPOCH :: datetime where
  "UNIX_EPOCH = 719162 * usec_per_day"

definition CLOCK_MIN :: datetime where
  "CLOCK_MIN = UNIX_EPOCH + (- (2 ^ 63)) div 1000"

definition CLOCK_MAX :: datetime where
  "CLOCK_MAX = UNIX_EPOCH + (2 ^ 63 - 1) div 1000"

definition py_now :: "int \<Rightarrow> datetime" where
  "py_now c = max CLOCK_MIN (min CLOCK_MAX c)"

subsection \<open>The deal in the CRM\<close>

text \<open>
  The value of a deal field.  Only scalars are modelled: for every other JSON value
  \<^verbatim>\<open>get_sequence_status\<close> returns something that is neither of the two stop words and
  \<^verbatim>\<open>get_last_email_sent\<close> returns 0, as for \<open>JNull\<close>.
\<close>

datatype jval = JNull | JBool bool | JInt int | JStr string

type_synonym deal = "(string \<times> jval) list"

fun py_truthy :: "jval \<Rightarrow> bool" where
  "py_truthy JNull = False"
| "py_truthy (JBool b) = b"
| "py_truthy (JInt i) = (i \<noteq> 0)"
| "py_truthy (JStr s) = (s \<noteq> [])"

fun py_str :: "jval \<Rightarrow> string" where
  "py_str JNull = ''None''"
| "py_str (JBool b) = (if b then ''True'' else ''False'')"
| "py_str (JInt i) = py_str_int i"
| "py_str (JStr s) = s"

text \<open>The two custom field keys of \<^verbatim>\<open>FIELD_KEYS\<close> that the sequencer uses.\<close>

definition KEY_email_sequence_status :: string where
  "KEY_email_sequence_status = ''22d33c7f119119e178f391a272739c571cf2e29b''"

definition KEY_laatste_email :: string where
  "KEY_laatste_email = ''753f37a1abc8e161c7982c1379a306b21fae1bab''"

text \<open>
  The JSON body of an API response: the truth value of its \<^verbatim>\<open>success\<close> member and its
  \<^verbatim>\<open>data\<close> member, an object (a deal) or nothing.
\<close>

record response =
  success :: bool
  data :: "deal option"

text \<open>
  What a GET of the deal answers.  \<open>Fresh\<close>: the request succeeds and returns the deal
  as it is stored.  \<open>NoReply\<close>: \<^verbatim>\<open>pipedrive_request\<close> returns \<^verbatim>\<open>None\<close> (an exception of
  the HTTP library, a timeout after 30 seconds, a status code other than 200 or 201).
  \<open>Reply r\<close>: any other body, for instance an outdated copy of the deal.
\<close>

datatype get_outcome = Fresh | NoReply | Reply response

definition pipedrive_get :: "get_outcome \<Rightarrow> deal \<Rightarrow> response option" where
  "pipedrive_get g st =
     (case g of
        Fresh \<Rightarrow> Some \<lparr>success = True, data = Some st\<rparr>
      | NoReply \<Rightarrow> None
      | Reply r \<Rightarrow> Some r)"

definition get_deal_info :: "get_outcome \<Rightarrow> deal \<Rightarrow> deal option" where
  "get_deal_info g st =
     (case pipedrive_get g st of
        None \<Rightarrow> None
      | Some result \<Rightarrow> if success result then data result else None)"

text \<open>\<^verbatim>\<open>deal.get(key, "")\<close>.\<close>

definition deal_get :: "deal \<Rightarrow> string \<Rightarrow> jval" where
  "deal_get d k = (case map_of d k of None \<Rightarrow> JStr [] | Some v \<Rightarrow> v)"

definition get_sequence_status :: "get_outcome \<Rightarrow> deal \<Rightarrow> jval" where
  "get_sequence_status g st =
     (case get_deal_info g st of
        None \<Rightarrow> JStr []
      | Some d \<Rightarrow> if d \<noteq> [] then deal_get d KEY_email_sequence_status else JStr [])"

definition get_last_email_sent :: "get_outcome \<Rightarrow> deal \<Rightarrow> int" where
  "get_last_email_sent g st =
     (case get_deal_info g st of
        None \<Rightarrow> 0
      | Some d \<Rightarrow>
          if d \<noteq> [] then
            (let last_email = deal_get d KEY_laatste_email
             in if py_truthy last_email \<and> py_contains ''Email'' (py_str last_email) then
                  (case py_int (py_remove ''Email '' (py_str last_email)) of
                     Some n \<Rightarrow> n
                   | None \<Rightarrow> 0)
                else 0)
          else 0)"

text \<open>
  \<^verbatim>\<open>update_deal_field\<close>: the PUT either is committed to the deal or leaves it as it is;
  the result says which.
\<close>

definition update_deal_field :: "bool \<Rightarrow> string \<Rightarrow> jval \<Rightarrow> deal \<Rightarrow> bool \<times> deal" where
  "update_deal_field committed field_key v st =
     (if committed then (True, AList.update field_key v st) else (False, st))"

subsection \<open>The schedule and the environment of one step\<close>

record schedule_entry =
  email_num :: int
  day :: int
  template_id :: int

definition EMAIL_SCHEDULE :: "schedule_entry list" where
  "EMAIL_SCHEDULE =
     [\<lparr>email_num = 1, day = 1, template_id = 63\<rparr>,
      \<lparr>email_num = 2, day = 3, template_id = 64\<rparr>,
      \<lparr>email_num = 3, day = 5, template_id = 65\<rparr>,
      \<lparr>email_num = 4, day = 8, template_id = 66\<rparr>,
      \<lparr>email_num = 5, day = 11, template_id = 67\<rparr>,
      \<lparr>email_num = 6, day = 14, template_id = 68\<rparr>,
      \<lparr>email_num = 7, day = 21, template_id = 69\<rparr>,
      \<lparr>email_num = 8, day = 30, template_id = 70\<rparr>]"

text \<open>The keys of \<^verbatim>\<open>EMAIL_TEMPLATES\<close>; every template is a non-empty dictionary.\<close>

definition EMAIL_TEMPLATE_KEYS :: "int list" where
  "EMAIL_TEMPLATE_KEYS = [1, 2, 3, 4, 5, 6, 7, 8]"

text \<open>
  The environment while one schedule entry is processed:
  \<^item> \<open>now\<close>: the system clock when the wait is computed, in microseconds since
    0001-01-01;
  \<^item> \<open>ext_writes\<close>: the fields that other parties wrote into the deal since the entry
    before, in order (pausing the sequence is such a write);
  \<^item> \<open>status_get\<close>, \<open>last_get\<close>: the answers to the GET of \<^verbatim>\<open>get_sequence_status\<close> and to
    the GET of \<^verbatim>\<open>get_last_email_sent\<close>;
  \<^item> \<open>smtp_ok\<close>: the \<^verbatim>\<open>try\<close> block of \<^verbatim>\<open>send_sequence_email\<close> gets through the SMTP
    transaction without an exception;
  \<^item> \<open>put_last_ok\<close>, \<open>put_status_ok\<close>: the PUT of the field \<open>laatste_email\<close>, of the status
    field, is committed.
\<close>

record step_env =
  now :: datetime
  ext_writes :: "(string \<times> jval) list"
  status_get :: get_outcome
  last_get :: get_outcome
  smtp_ok :: bool
  put_last_ok :: bool
  put_status_ok :: bool

text \<open>
  What happens in a run; the first argument is the number of the e-mail being processed.
  \<open>Sleep n w\<close>: \<^verbatim>\<open>time.sleep\<close> for \<open>w\<close> microseconds.  \<open>External n ws\<close>: the writes of other
  parties take effect.  \<open>StatusRead n v\<close> and \<open>LastRead n l\<close>: \<^verbatim>\<open>get_sequence_status\<close> returns
  \<open>v\<close>, \<^verbatim>\<open>get_last_email_sent\<close> returns \<open>l\<close>.  \<open>Send n ok\<close>: \<^verbatim>\<open>send_sequence_email\<close> is called
  and returns \<open>ok\<close>.  \<open>Put n k v c\<close>: \<^verbatim>\<open>update_deal_field\<close> sends the value \<open>v\<close> for the field
  \<open>k\<close>, and \<open>c\<close> says whether the deal took it.
\<close>

datatype event =
    Sleep int int
  | External int "(string \<times> jval) list"
  | StatusRead int jval
  | LastRead int int
  | Send int bool
  | Put int string jval bool

text \<open>
  How a run ends: the loop ran through the schedule, the body executed \<^verbatim>\<open>return\<close>, or an
  exception left the function.
\<close>

datatype error = OverflowError

datatype outcome = Finished | Stopped | Raised error

definition apply_writes :: "(string \<times> jval) list \<Rightarrow> deal \<Rightarrow> deal" where
  "apply_writes ws st = foldl (\<lambda>s (k, v). AList.update k v s) st ws"

subsection \<open>\<^verbatim>\<open>send_sequence_email\<close>\<close>

text \<open>
  \<open>smtp_pass\<close> is the module constant \<^verbatim>\<open>SMTP_PASS\<close> (\<open>None\<close> when the environment variable
  is not set).  The result is the return value, the PUT requests made, and the deal.
\<close>

definition send_sequence_email ::
  "string option \<Rightarrow> step_env \<Rightarrow> int \<Rightarrow> deal \<Rightarrow> bool \<times> event list \<times> deal" where
  "send_sequence_email smtp_pass e n st =
     (if smtp_pass = None \<or> smtp_pass = Some [] then (False, [], st)
      else if n \<notin> set EMAIL_TEMPLATE_KEYS then (False, [], st)
      else if \<not> smtp_ok e then (False, [], st)
      else
        (let v = JStr (''Email '' @ py_str_int n);
             (r1, st1) = update_deal_field (put_last_ok e) KEY_laatste_email v st;
             ev1 = [Put n KEY_laatste_email v r1]
         in if n = 8 then
              (let (r2, st2) = update_deal_field (put_status_ok e) KEY_email_sequence_status
                                 (JStr ''Voltooid'') st1
               in (True, ev1 @ [Put n KEY_email_sequence_status (JStr ''Voltooid'') r2], st2))
            else (True, ev1, st1)))"

subsection \<open>\<^verbatim>\<open>process_email_sequence\<close>\<close>

definition STOP_STATUSES :: "jval list" where
  "STOP_STATUSES = [JStr ''Gepauzeerd'', JStr ''Voltooid'']"

text \<open>How the body of the \<^verbatim>\<open>for\<close> loop ends: it falls through or executes \<^verbatim>\<open>continue\<close>,
  it executes \<^verbatim>\<open>return\<close>, or it raises.\<close>

datatype step_end = Next | Return | Raise error

text \<open>
  The body of the \<^verbatim>\<open>for\<close> loop for one schedule entry.  Beside the deal the run carries
  the time \<open>t\<close> it has reached: the time of its start, of its last clock reading, or the
  end of its last sleep.  A clock reading is never earlier than that time: \<^verbatim>\<open>time.sleep\<close>
  suspends the run for at least the time asked, and the clock is not set back while the
  run is under way.

  The send date is computed first and the wait after it; either computation may raise,
  and then the body is left before anything is checked or sent.
\<close>

definition sequence_step ::
  "string option \<Rightarrow> datetime \<Rightarrow> step_env \<Rightarrow> schedule_entry \<Rightarrow> deal \<Rightarrow> datetime
     \<Rightarrow> event list \<times> deal \<times> datetime \<times> step_end" where
  "sequence_step smtp_pass sent_date e s st t =
     (let n = email_num s;
          send_date = sent_date + day s * usec_per_day
      in if MAX_DATETIME < send_date then ([], st, t, Raise OverflowError)
         else
           (let clock = max t (py_now (now e));
                wait = send_date - clock
            in if wait > 0 \<and> SLEEP_MAX < wait then ([], st, clock, Raise OverflowError)
               else
                 (let slept = (if wait > 0 then [Sleep n wait] else []);
                      t1 = (if wait > 0 then clock + wait else clock);
                      st0 = apply_writes (ext_writes e) st;
                      pre = slept @ [External n (ext_writes e)];
                      status = get_sequence_status (status_get e) st0
                  in if status \<in> set STOP_STATUSES then (pre @ [StatusRead n status], st0, t1, Return)
                     else
                       (let last_sent = get_last_email_sent (last_get e) st0
                        in if last_sent \<ge> n
                           then (pre @ [StatusRead n status, LastRead n last_sent], st0, t1, Next)
                           else
                             (let (ok, evs, st1) = send_sequence_email smtp_pass e n st0
                              in (pre @ [StatusRead n status, LastRead n last_sent, Send n ok] @ evs,
                                  st1, t1, Next))))))"

text \<open>The loop over the schedule; the result holds the time reached as well.\<close>

fun email_loop ::
  "string option \<Rightarrow> datetime \<Rightarrow> (int \<Rightarrow> step_env) \<Rightarrow> schedule_entry list \<Rightarrow> deal \<Rightarrow> datetime
     \<Rightarrow> event list \<times> deal \<times> datetime \<times> outcome" where
  "email_loop smtp_pass sent_date env [] st t = ([], st, t, Finished)"
| "email_loop smtp_pass sent_date env (s # ss) st t =
     (case sequence_step smtp_pass sent_date (env (email_num s)) s st t of
        (evs, st', t', Return) \<Rightarrow> (evs, st', t', Stopped)
      | (evs, st', t', Raise err) \<Rightarrow> (evs, st', t', Raised err)
      | (evs, st', t', Next) \<Rightarrow>
          (case email_loop smtp_pass sent_date env ss st' t' of
             (evs', st'', t'', out) \<Rightarrow> (evs @ evs', st'', t'', out)))"

text \<open>
  \<open>now0\<close> is the system clock when the run starts.  Its reading is the time the run has
  reached at its start, and it replaces a start date that does not parse.
  \<open>env n\<close> is the environment in which e-mail \<open>n\<close> of the schedule is processed.
\<close>

definition process_email_sequence ::
  "string option \<Rightarrow> string \<Rightarrow> int \<Rightarrow> (int \<Rightarrow> step_env) \<Rightarrow> deal \<Rightarrow> event list \<times> deal \<times> outcome" where
  "process_email_sequence smtp_pass apk_sent_date now0 env st =
     (let sent_date = (case strptime_ymd apk_sent_date of Some d \<Rightarrow> d | None \<Rightarrow> py_now now0)
      in case email_loop smtp_pass sent_date env EMAIL_SCHEDULE st (py_now now0) of
           (tr, st', t', out) \<Rightarrow> (tr, st', out))"

subsection \<open>Sequential runs on the same deal\<close>

record run_input =
  apk_sent_date :: string
  clock0 :: datetime
  envs :: "int \<Rightarrow> step_env"

text \<open>Runs for one deal, one after the other; every run starts on the deal as the
  run before left it.\<close>

fun run_many :: "string option \<Rightarrow> run_input list \<Rightarrow> deal \<Rightarrow> event list \<times> deal" where
  "run_many smtp_pass [] st = ([], st)"
| "run_many smtp_pass (r # rs) st =
     (case process_email_sequence smtp_pass (apk_sent_date r) (clock0 r) (envs r) st of
        (tr, st', out) \<Rightarrow>
          (case run_many smtp_pass rs st' of (tr', st'') \<Rightarrow> (tr @ tr', st'')))"

section \<open>Observations on a run\<close>

definition trace :: "event list \<times> deal \<times> outcome \<Rightarrow> event list" where
  "trace r = fst r"

definition final_deal :: "event list \<times> deal \<times> outcome \<Rightarrow> deal" where
  "final_deal r = fst (snd r)"

definition result :: "event list \<times> deal \<times> outcome \<Rightarrow> outcome" where
  "result r = snd (snd r)"

text \<open>The schedule entry during which an event happened.\<close>

fun tag :: "event \<Rightarrow> int" where
  "tag (Sleep n w) = n"
| "tag (External n ws) = n"
| "tag (StatusRead n v) = n"
| "tag (LastRead n l) = n"
| "tag (Send n ok) = n"
| "tag (Put n k v c) = n"

text \<open>The calls of \<^verbatim>\<open>send_sequence_email\<close> with their results, in order.\<close>

fun sends :: "event list \<Rightarrow> (int \<times> bool) list" where
  "sends [] = []"
| "sends (Send n ok # evs) = (n, ok) # sends evs"
| "sends (ev # evs) = sends evs"

text \<open>The e-mails that went out, in order.\<close>

definition delivered :: "event list \<Rightarrow> int list" where
  "delivered tr = map fst (filter snd (sends tr))"

text \<open>The values the status reads returned, in order.\<close>

fun status_reads :: "event list \<Rightarrow> jval list" where
  "status_reads [] = []"
| "status_reads (StatusRead n v # evs) = v # status_reads evs"
| "status_reads (ev # evs) = status_reads evs"

text \<open>The numbers the reads of the last e-mail returned, each with its e-mail, in order.\<close>

fun last_reads :: "event list \<Rightarrow> (int \<times> int) list" where
  "last_reads [] = []"
| "last_reads (LastRead n l # evs) = (n, l) # last_reads evs"
| "last_reads (ev # evs) = last_reads evs"

text \<open>The PUT requests of the run, committed or not, in order: field key and value.\<close>

fun writes :: "event list \<Rightarrow> (string \<times> jval) list" where
  "writes [] = []"
| "writes (Put n k v c # evs) = (k, v) # writes evs"
| "writes (ev # evs) = writes evs"

text \<open>
  The number of the last e-mail as the deal records it: what \<^verbatim>\<open>get_last_email_sent\<close>
  returns when its request is answered with the stored deal.
\<close>

definition recorded :: "deal \<Rightarrow> int" where
  "recorded st = get_last_email_sent Fresh st"

text \<open>The status as the deal records it.\<close>

definition recorded_status :: "deal \<Rightarrow> jval" where
  "recorded_status st = get_sequence_status Fresh st"

text \<open>The effect of one event on the deal, and of a list of events.\<close>

fun apply_event :: "event \<Rightarrow> deal \<Rightarrow> deal" where
  "apply_event (Put n k v c) st = (if c then AList.update k v st else st)"
| "apply_event (External n ws) st = apply_writes ws st"
| "apply_event ev st = st"

definition replay :: "event list \<Rightarrow> deal \<Rightarrow> deal" where
  "replay tr st = foldl (\<lambda>s ev. apply_event ev s) st tr"

text \<open>
  Every write of the field \<open>laatste_email\<close> that the sequencer makes, for e-mail \<open>n\<close>,
  finds a recorded number that is at most \<open>n\<close> and does not lower it.
\<close>

fun writes_nondecreasing :: "event list \<Rightarrow> deal \<Rightarrow> bool" where
  "writes_nondecreasing [] st = True"
| "writes_nondecreasing (Put n k v c # evs) st =
     ((k = KEY_laatste_email \<longrightarrow>
         recorded st \<le> n \<and> recorded st \<le> recorded (apply_event (Put n k v c) st))
      \<and> writes_nondecreasing evs (apply_event (Put n k v c) st))"
| "writes_nondecreasing (ev # evs) st = writes_nondecreasing evs (apply_event ev st)"

text \<open>A GET that fails or brings no data.\<close>

fun read_fails :: "get_outcome \<Rightarrow> bool" where
  "read_fails Fresh = False"
| "read_fails NoReply = True"
| "read_fails (Reply r) = (\<not> success r \<or> data r = None \<or> data r = Some [])"

text \<open>The PUT requests of \<^verbatim>\<open>send_sequence_email\<close> after e-mail \<open>n\<close> went out.\<close>

definition send_puts :: "step_env \<Rightarrow> int \<Rightarrow> event list" where
  "send_puts e n =
     Put n KEY_laatste_email (JStr (''Email '' @ py_str_int n)) (put_last_ok e)
     # (if n = 8 then [Put n KEY_email_sequence_status (JStr ''Voltooid'') (put_status_ok e)] else [])"

text \<open>What \<^verbatim>\<open>get_last_email_sent\<close> makes of the value of the field.\<close>

definition parse_last :: "jval \<Rightarrow> int" where
  "parse_last v =
     (if py_truthy v \<and> py_contains ''Email'' (py_str v) then
        (case py_int (py_remove ''Email '' (py_str v)) of Some n \<Rightarrow> n | None \<Rightarrow> 0)
      else 0)"

text \<open>
  The start date lies behind the run, and not further ahead than a clock reading and
  one wait that \<^verbatim>\<open>time.sleep\<close> accepts can lead.  This holds of the time a run has reached
  once one iteration of the loop got to its checks.
\<close>

definition started :: "datetime \<Rightarrow> datetime \<Rightarrow> bool" where
  "started sd t = (sd \<le> t \<and> sd \<le> CLOCK_MAX + SLEEP_MAX)"

text \<open>The entry of the schedule for e-mail \<open>i\<close>.\<close>

definition entry :: "int \<Rightarrow> schedule_entry" where
  "entry i = \<lparr>email_num = i, day = [1, 3, 5, 8, 11, 14, 21, 30] ! nat (i - 1), template_id = 62 + i\<rparr>"

section \<open>Scenarios\<close>

text \<open>A deal as the webhook handler creates it, and the same deal after five e-mails.\<close>

definition deal_new :: deal where
  "deal_new = [(''title'', JStr ''APK - Acme''), (KEY_email_sequence_status, JStr ''Actief'')]"

definition deal_after_5 :: deal where
  "deal_after_5 = [(''title'', JStr ''APK - Acme''), (KEY_email_sequence_status, JStr ''Actief''),
                   (KEY_laatste_email, JStr ''Email 5'')]"

definition deal_paused :: deal where
  "deal_paused = [(''title'', JStr ''APK - Acme''), (KEY_email_sequence_status, JStr ''Gepauzeerd'')]"

text \<open>
  Every request is answered from the deal, every message and every write goes through;
  the run was started on 2026-11-04 and the clock is read two seconds after each wake-up.
\<close>

definition env_ok :: "int \<Rightarrow> step_env" where
  "env_ok i =
     \<lparr>now = 63929347200000000 + [0, 1, 3, 5, 8, 11, 14, 21] ! nat (i - 1) * usec_per_day + 2000000,
      ext_writes = [], status_get = Fresh, last_get = Fresh,
      smtp_ok = True, put_last_ok = True, put_status_ok = True\<rparr>"

text \<open>As \<open>env_ok\<close>, but the SMTP transaction for e-mail 3 fails.\<close>

definition env_smtp3_down :: "int \<Rightarrow> step_env" where
  "env_smtp3_down i = (env_ok i)\<lparr>smtp_ok := (i \<noteq> 3)\<rparr>"

text \<open>As \<open>env_ok\<close>, but somebody pauses the sequence while the run waits for e-mail 2.\<close>

definition env_pause2 :: "int \<Rightarrow> step_env" where
  "env_pause2 i =
     (env_ok i)\<lparr>ext_writes := (if i = 2 then [(KEY_email_sequence_status, JStr ''Gepauzeerd'')] else [])\<rparr>"

text \<open>As \<open>env_ok\<close>, but the two GET requests at the check of e-mail 1 get no answer.\<close>

definition env_get1_down :: "int \<Rightarrow> step_env" where
  "env_get1_down i =
     (env_ok i)\<lparr>status_get := (if i = 1 then NoReply else Fresh),
               last_get := (if i = 1 then NoReply else Fresh)\<rparr>"

text \<open>As \<open>env_ok\<close>, but somebody sets the status back to \<open>Actief\<close> before the first check.\<close>

definition env_resume1 :: "int \<Rightarrow> step_env" where
  "env_resume1 i =
     (env_ok i)\<lparr>ext_writes := (if i = 1 then [(KEY_email_sequence_status, JStr ''Actief'')] else [])\<rparr>"

text \<open>As \<open>env_ok\<close>, but the SMTP server is down from e-mail 6 on.\<close>

definition env_smtp_down_from6 :: "int \<Rightarrow> step_env" where
  "env_smtp_down_from6 i = (env_ok i)\<lparr>smtp_ok := (i < 6)\<rparr>"

text \<open>Two runs for one deal: the first is paused before e-mail 2, the second follows after
  the deal was set back to \<open>Actief\<close>.\<close>

definition runs_pause_resume :: "run_input list" where
  "runs_pause_resume =
     [\<lparr>apk_sent_date = ''2026-11-04'', clock0 = 63929347201000000, envs = env_pause2\<rparr>,
      \<lparr>apk_sent_date = ''2026-11-04'', clock0 = 63929347201000000, envs = env_resume1\<rparr>]"

text \<open>One run in which the GET requests of the first check get no answer.\<close>

definition runs_get1_down :: "run_input list" where
  "runs_get1_down =
     [\<lparr>apk_sent_date = ''2026-11-04'', clock0 = 63929347201000000, envs = env_get1_down\<rparr>]"

text \<open>As \<open>env_ok\<close>, but the two PUT requests after e-mail 8 are not committed.\<close>

definition env_put8_down :: "int \<Rightarrow> step_env" where
  "env_put8_down i = (env_ok i)\<lparr>put_last_ok := (i \<noteq> 8), put_status_ok := (i \<noteq> 8)\<rparr>"

text \<open>A run that was started on 2026-11-04, one second after midnight, with the SMTP
  password set.\<close>

abbreviation run_2026 :: "(int \<Rightarrow> step_env) \<Rightarrow> deal \<Rightarrow> event list \<times> deal \<times> outcome" where
  "run_2026 env st \<equiv>
     process_email_sequence (Some ''secret'') ''2026-11-04'' 63929347201000000 env st"

section \<open>The anatomy of a run\<close>

lemma EMAIL_SCHEDULE_entries: "EMAIL_SCHEDULE = map entry [1 .. 8]"
  by (simp add: EMAIL_SCHEDULE_def entry_def upto_rec1)

lemma email_num_entry [simp]: "email_num (entry i) = i"
  by (simp add: entry_def)

lemma day_entry_bounds:
  assumes "1 \<le> i" "i \<le> 8"
  shows "0 \<le> day (entry i) \<and> day (entry i) \<le> 30"
proof -
  from assms have "i = 1 \<or> i = 2 \<or> i = 3 \<or> i = 4 \<or> i = 5 \<or> i = 6 \<or> i = 7 \<or> i = 8"
    by arith
  then show ?thesis
    by (auto simp: entry_def)
qed

lemma schedule_days: "\<forall>s\<in>set EMAIL_SCHEDULE. 0 \<le> day s \<and> day s \<le> 30"
  by (simp add: EMAIL_SCHEDULE_def)

lemma schedule_split:
  assumes "1 \<le> i" "i \<le> 8"
  shows "EMAIL_SCHEDULE = map entry [1 .. i - 1] @ entry i # map entry [i + 1 .. 8]"
proof -
  have "[1 .. 8] = [1 .. i - 1] @ i # [i + 1 .. 8]"
    using assms by (simp add: upto_split3 [symmetric])
  then show ?thesis by (simp add: EMAIL_SCHEDULE_entries)
qed

lemma email_loop_append:
  "email_loop p sd env (xs @ ys) st t =
     (case email_loop p sd env xs st t of
        (t1, st1, tt1, Finished) \<Rightarrow>
          (case email_loop p sd env ys st1 tt1 of (t2, st2, tt2, out) \<Rightarrow> (t1 @ t2, st2, tt2, out))
      | (t1, st1, tt1, out) \<Rightarrow> (t1, st1, tt1, out))"
proof (induction xs arbitrary: st t)
  case Nil
  show ?case by (simp split: prod.splits)
next
  case (Cons x xs)
  show ?case
    by (simp add: Cons.IH split: prod.splits step_end.splits outcome.splits)
qed

lemma send_sequence_email_tags:
  "send_sequence_email p e n st = (ok, evs, st') \<Longrightarrow> ev \<in> set evs \<Longrightarrow> tag ev = n"
  by (auto simp: send_sequence_email_def Let_def update_deal_field_def split: if_splits)

lemma keys_differ [simp]:
  "KEY_laatste_email \<noteq> KEY_email_sequence_status" "KEY_email_sequence_status \<noteq> KEY_laatste_email"
  by (simp_all add: KEY_laatste_email_def KEY_email_sequence_status_def)

lemma send_sequence_email_eq:
  "send_sequence_email p e n st =
     (if p = None \<or> p = Some [] \<or> n \<notin> set EMAIL_TEMPLATE_KEYS \<or> \<not> smtp_ok e then (False, [], st)
      else (True, send_puts e n, replay (send_puts e n) st))"
  by (simp add: send_sequence_email_def update_deal_field_def send_puts_def replay_def Let_def)

lemma send_puts_tags: "ev \<in> set (send_puts e n) \<Longrightarrow> \<exists>k v c. ev = Put n k v c"
  by (auto simp: send_puts_def split: if_splits)

lemma send_puts_tag: "ev \<in> set (send_puts e n) \<Longrightarrow> tag ev = n"
  by (auto simp: send_puts_def split: if_splits)

text \<open>The body of the loop, branch by branch.\<close>

lemma sequence_step_eq:
  "sequence_step p sd e s st t =
     (let n = email_num s;
          send_date = sd + day s * usec_per_day;
          clock = max t (py_now (now e));
          wait = send_date - clock;
          t1 = (if 0 < wait then clock + wait else clock);
          st0 = apply_writes (ext_writes e) st;
          pre = (if 0 < wait then [Sleep n wait] else []) @ [External n (ext_writes e)];
          v = get_sequence_status (status_get e) st0;
          l = get_last_email_sent (last_get e) st0
      in if MAX_DATETIME < send_date then ([], st, t, Raise OverflowError)
         else if SLEEP_MAX < wait \<and> 0 < wait then ([], st, clock, Raise OverflowError)
         else if v \<in> set STOP_STATUSES then (pre @ [StatusRead n v], st0, t1, Return)
         else if n \<le> l then (pre @ [StatusRead n v, LastRead n l], st0, t1, Next)
         else if p = None \<or> p = Some [] \<or> n \<notin> set EMAIL_TEMPLATE_KEYS \<or> \<not> smtp_ok e
           then (pre @ [StatusRead n v, LastRead n l, Send n False], st0, t1, Next)
         else (pre @ [StatusRead n v, LastRead n l, Send n True] @ send_puts e n,
               replay (send_puts e n) st0, t1, Next))"
  by (simp add: sequence_step_def send_sequence_email_eq Let_def)

lemma sequence_step_tags:
  "sequence_step p sd e s st t = (evs, st', t', r) \<Longrightarrow> ev \<in> set evs \<Longrightarrow> tag ev = email_num s"
  by (auto simp: sequence_step_eq Let_def split: if_splits dest: send_puts_tag)

lemma email_loop_tags:
  "email_loop p sd env ss st t = (tr, st', t', out) \<Longrightarrow> ev \<in> set tr \<Longrightarrow> tag ev \<in> email_num ` set ss"
proof (induction ss arbitrary: st t tr st' t' out)
  case Nil
  then show ?case by simp
next
  case (Cons s ss)
  obtain evs st1 t1 r where step: "sequence_step p sd (env (email_num s)) s st t = (evs, st1, t1, r)"
    by (metis prod_cases4)
  obtain tr2 st2 t2 out2 where rest: "email_loop p sd env ss st1 t1 = (tr2, st2, t2, out2)"
    by (metis prod_cases4)
  have "ev \<in> set evs \<or> ev \<in> set tr2"
    using Cons.prems step rest by (cases r) auto
  then show ?case
    using sequence_step_tags [OF step] Cons.IH [OF rest] by auto
qed

lemma tags_before:
  assumes "email_loop p sd env (map entry [1 .. i - 1]) st t = (tr, st', t', out)" "ev \<in> set tr"
  shows "tag ev < i"
  using email_loop_tags [OF assms] by auto

lemma tags_after:
  assumes "email_loop p sd env (map entry [i + 1 .. 8]) st t = (tr, st', t', out)" "ev \<in> set tr"
  shows "i < tag ev \<and> tag ev \<le> 8"
  using email_loop_tags [OF assms] by auto

section \<open>Where a run can raise\<close>

lemma limits:
  "CLOCK_MAX + SLEEP_MAX + 30 * usec_per_day \<le> MAX_DATETIME" "30 * usec_per_day \<le> SLEEP_MAX"
  "0 \<le> SLEEP_MAX" "0 < usec_per_day"
  by (simp_all add: CLOCK_MAX_def SLEEP_MAX_def MAX_DATETIME_def UNIX_EPOCH_def usec_per_day_def)

lemma py_now_le: "py_now c \<le> CLOCK_MAX"
  by (simp add: py_now_def CLOCK_MAX_def CLOCK_MIN_def)

lemma day_usec:
  assumes "0 \<le> k" "k \<le> 30"
  shows "0 \<le> k * usec_per_day \<and> k * usec_per_day \<le> 30 * usec_per_day"
  using assms by (simp add: usec_per_day_def)

text \<open>An iteration that gets to its checks leaves the run started.\<close>

lemma step_started:
  assumes "sequence_step p sd e s st t = (evs, st', t', r)" "r \<noteq> Raise OverflowError"
    and "0 \<le> day s" "t \<le> CLOCK_MAX \<or> started sd t"
  shows "started sd t'"
proof -
  define send_date where "send_date = sd + day s * usec_per_day"
  define clock where "clock = max t (py_now (now e))"
  have d: "sd \<le> send_date"
    using assms(3) by (simp add: send_date_def usec_per_day_def)
  have w: "send_date - clock \<le> SLEEP_MAX"
    using assms(1,2) limits(3)
    by (auto simp: sequence_step_eq Let_def send_date_def clock_def split: if_splits)
  have t': "t' = (if 0 < send_date - clock then clock + (send_date - clock) else clock)"
    using assms(1,2)
    by (auto simp: sequence_step_eq Let_def send_date_def clock_def split: if_splits)
  have a: "sd \<le> t'"
    using d t' by (simp split: if_splits)
  have b: "sd \<le> CLOCK_MAX + SLEEP_MAX"
  proof (cases "started sd t")
    case True
    then show ?thesis by (simp add: started_def)
  next
    case False
    with assms(4) have "clock \<le> CLOCK_MAX"
      using py_now_le [of "now e"] by (simp add: clock_def)
    with d w show ?thesis by simp
  qed
  from a b show ?thesis by (simp add: started_def)
qed

text \<open>Once the run is started, no iteration raises.\<close>

lemma started_step:
  assumes "sequence_step p sd e s st t = (evs, st', t', r)" "started sd t"
    and "0 \<le> day s" "day s \<le> 30"
  shows "r \<noteq> Raise OverflowError \<and> started sd t'"
proof -
  define send_date where "send_date = sd + day s * usec_per_day"
  define clock where "clock = max t (py_now (now e))"
  have k: "0 \<le> day s * usec_per_day" "day s * usec_per_day \<le> 30 * usec_per_day"
    using day_usec [OF assms(3,4)] by simp_all
  have "send_date \<le> CLOCK_MAX + SLEEP_MAX + 30 * usec_per_day"
    using assms(2) k by (simp add: started_def send_date_def)
  then have d: "\<not> MAX_DATETIME < send_date"
    using limits(1) by simp
  have "sd \<le> clock"
    using assms(2) by (simp add: started_def clock_def le_max_iff_disj)
  then have "send_date - clock \<le> 30 * usec_per_day"
    using k by (simp add: send_date_def)
  then have w: "\<not> SLEEP_MAX < send_date - clock"
    using limits(2) by simp
  have r: "r \<noteq> Raise OverflowError"
    using assms(1) d w
    by (auto simp: sequence_step_eq Let_def send_date_def clock_def split: if_splits)
  from step_started [OF assms(1) r assms(3)] assms(2) show ?thesis
    using r by simp
qed

lemma started_step_sleep:
  assumes "sequence_step p sd e s st t = (evs, st', t', r)" "started sd t" "Sleep i w \<in> set evs"
  shows "i = email_num s \<and> 0 < w \<and> w \<le> day s * usec_per_day"
proof -
  have "sd \<le> max t (py_now (now e))"
    using assms(2) by (simp add: started_def le_max_iff_disj)
  with assms(1,3) show ?thesis
    by (auto simp: sequence_step_eq Let_def send_puts_def split: if_splits)
qed

lemma status_read_in_step:
  "sequence_step p sd e s st t = (evs, st', t', r) \<Longrightarrow> r \<noteq> Raise OverflowError
     \<Longrightarrow> \<exists>v. StatusRead (email_num s) v \<in> set evs"
  by (auto simp: sequence_step_eq Let_def split: if_splits)

lemma raise_no_events:
  "sequence_step p sd e s st t = (evs, st', t', Raise err) \<Longrightarrow> evs = [] \<and> st' = st"
  by (auto simp: sequence_step_eq Let_def split: if_splits)

lemma started_loop:
  assumes "email_loop p sd env ss st t = (tr, st', t', out)" "started sd t"
    and "\<forall>s\<in>set ss. 0 \<le> day s \<and> day s \<le> 30"
  shows "out \<noteq> Raised OverflowError
    \<and> (\<forall>i w. Sleep i w \<in> set tr \<longrightarrow> 0 < w \<and> (\<exists>s\<in>set ss. i = email_num s \<and> w \<le> day s * usec_per_day))"
  using assms
proof (induction ss arbitrary: st t tr st' t' out)
  case Nil
  then show ?case by auto
next
  case (Cons s ss)
  obtain evs st1 t1 r where step: "sequence_step p sd (env (email_num s)) s st t = (evs, st1, t1, r)"
    by (metis prod_cases4)
  obtain tr2 st2 t2 out2 where rest: "email_loop p sd env ss st1 t1 = (tr2, st2, t2, out2)"
    by (metis prod_cases4)
  have days: "0 \<le> day s" "day s \<le> 30"
    using Cons.prems(3) by simp_all
  from started_step [OF step Cons.prems(2) days]
  have r: "r \<noteq> Raise OverflowError" and s1: "started sd t1"
    by simp_all
  have ih: "out2 \<noteq> Raised OverflowError
    \<and> (\<forall>i w. Sleep i w \<in> set tr2 \<longrightarrow> 0 < w \<and> (\<exists>s\<in>set ss. i = email_num s \<and> w \<le> day s * usec_per_day))"
    using Cons.IH [OF rest s1] Cons.prems(3) by simp
  have sl: "\<forall>i w. Sleep i w \<in> set evs \<longrightarrow> 0 < w \<and> i = email_num s \<and> w \<le> day s * usec_per_day"
    using started_step_sleep [OF step Cons.prems(2)] by blast
  show ?case
  proof (cases r)
    case Next
    with Cons.prems(1) step rest have "tr = evs @ tr2" "out = out2"
      by simp_all
    with ih sl show ?thesis by auto
  next
    case Return
    with Cons.prems(1) step have "tr = evs" "out = Stopped"
      by simp_all
    with sl show ?thesis by auto
  next
    case (Raise err)
    with r show ?thesis by (cases err) simp
  qed
qed

lemma loop_started:
  assumes "email_loop p sd env ss st t = (tr, st', t', Finished)"
    and "t \<le> CLOCK_MAX \<or> started sd t" "\<forall>s\<in>set ss. 0 \<le> day s"
  shows "t' \<le> CLOCK_MAX \<or> started sd t'"
  using assms
proof (induction ss arbitrary: st t tr st')
  case Nil
  then show ?case by simp
next
  case (Cons s ss)
  obtain evs st1 t1 r where step: "sequence_step p sd (env (email_num s)) s st t = (evs, st1, t1, r)"
    by (metis prod_cases4)
  obtain tr2 st2 t2 out2 where rest: "email_loop p sd env ss st1 t1 = (tr2, st2, t2, out2)"
    by (metis prod_cases4)
  have r: "r = Next"
    using Cons.prems(1) step rest by (cases r) simp_all
  then have whole: "t2 = t'" "out2 = Finished"
    using Cons.prems(1) step rest by simp_all
  have "started sd t1"
    using step_started [OF step _ _ Cons.prems(2)] r Cons.prems(3) by simp
  with Cons.IH [of st1 t1 tr2 st2] rest whole Cons.prems(3) show ?case by simp
qed

text \<open>The anatomy of a run around schedule entry i.\<close>

lemma run_cases:
  assumes "1 \<le> i" "i \<le> 8" "t \<le> CLOCK_MAX"
  obtains
    (before) t1 st1 tt1 out where
      "email_loop p sd env EMAIL_SCHEDULE st t = (t1, st1, tt1, out)"
      "\<forall>ev\<in>set t1. tag ev < i"
  | (stop) t1 st1 tt1 evs st2 tt2 where
      "sequence_step p sd (env i) (entry i) st1 tt1 = (evs, st2, tt2, Return)"
      "email_loop p sd env EMAIL_SCHEDULE st t = (t1 @ evs, st2, tt2, Stopped)"
      "\<forall>ev\<in>set t1. tag ev < i"
  | (cont) t1 st1 tt1 evs st2 tt2 t3 st3 tt3 out where
      "sequence_step p sd (env i) (entry i) st1 tt1 = (evs, st2, tt2, Next)"
      "email_loop p sd env (map entry [i + 1 .. 8]) st2 tt2 = (t3, st3, tt3, out)"
      "email_loop p sd env EMAIL_SCHEDULE st t = (t1 @ evs @ t3, st3, tt3, out)"
      "\<forall>ev\<in>set t1. tag ev < i"
      "\<forall>ev\<in>set t3. i < tag ev"
      "started sd tt2"
proof -
  obtain t1 st1 tt1 o1 where pre: "email_loop p sd env (map entry [1 .. i - 1]) st t = (t1, st1, tt1, o1)"
    by (metis prod_cases4)
  have t1: "\<forall>ev\<in>set t1. tag ev < i"
    using tags_before [OF pre] by blast
  obtain evs st2 tt2 r where step: "sequence_step p sd (env i) (entry i) st1 tt1 = (evs, st2, tt2, r)"
    by (metis prod_cases4)
  obtain t3 st3 tt3 out where post: "email_loop p sd env (map entry [i + 1 .. 8]) st2 tt2 = (t3, st3, tt3, out)"
    by (metis prod_cases4)
  have t3: "\<forall>ev\<in>set t3. i < tag ev"
    using tags_after [OF post] by blast
  have split: "email_loop p sd env EMAIL_SCHEDULE st t =
      (case email_loop p sd env (map entry [1 .. i - 1]) st t of
        (t1, st1, tt1, Finished) \<Rightarrow>
          (case email_loop p sd env (entry i # map entry [i + 1 .. 8]) st1 tt1 of
             (t2, st2, tt2, out) \<Rightarrow> (t1 @ t2, st2, tt2, out))
      | (t1, st1, tt1, out) \<Rightarrow> (t1, st1, tt1, out))"
    by (simp only: schedule_split [OF assms(1,2)] email_loop_append)
  show thesis
  proof (cases "o1 = Finished")
    case False
    with split pre have "email_loop p sd env EMAIL_SCHEDULE st t = (t1, st1, tt1, o1)"
      by (cases o1) simp_all
    with t1 before show ?thesis by simp
  next
    case True
    have days: "\<forall>s\<in>set (map entry [1 .. i - 1]). 0 \<le> day s"
      using assms(1,2) day_entry_bounds by auto
    have inv: "tt1 \<le> CLOCK_MAX \<or> started sd tt1"
      using loop_started [OF pre [unfolded True] _ days] assms(3) by simp
    show ?thesis
    proof (cases r)
      case Next
      have whole: "email_loop p sd env EMAIL_SCHEDULE st t = (t1 @ evs @ t3, st3, tt3, out)"
        using split pre True step post Next by simp
      have "started sd tt2"
        using step_started [OF step _ _ inv] Next day_entry_bounds [OF assms(1,2)] by simp
      with whole t1 t3 step post Next cont show ?thesis by simp
    next
      case Return
      have "email_loop p sd env EMAIL_SCHEDULE st t = (t1 @ evs, st2, tt2, Stopped)"
        using split pre True step Return by simp
      with t1 step Return stop show ?thesis by simp
    next
      case (Raise err)
      have "evs = []"
        using raise_no_events step Raise by blast
      then have "email_loop p sd env EMAIL_SCHEDULE st t = (t1, st2, tt2, Raised err)"
        using split pre True step Raise by simp
      with t1 before show ?thesis by simp
    qed
  qed
qed

lemma status_read_next:
  assumes "1 \<le> i" "i < 8" "email_loop p sd env (map entry [i + 1 .. 8]) st t = (tr, st', t', out)"
    and "started sd t"
  shows "\<exists>v. StatusRead (i + 1) v \<in> set tr"
proof -
  obtain rest where l: "[i + 1 .. 8] = (i + 1) # rest"
    using assms(2) by (simp add: upto_rec1)
  obtain evs st1 t1 r where step: "sequence_step p sd (env (i + 1)) (entry (i + 1)) st t = (evs, st1, t1, r)"
    by (metis prod_cases4)
  have "0 \<le> day (entry (i + 1))" "day (entry (i + 1)) \<le> 30"
    using day_entry_bounds [of "i + 1"] assms(1,2) by simp_all
  from started_step [OF step assms(4) this] have r: "r \<noteq> Raise OverflowError"
    by simp
  from status_read_in_step [OF step r] obtain v where v: "StatusRead (i + 1) v \<in> set evs"
    by auto
  have "set evs \<subseteq> set tr"
    using assms(3) l step r by (cases r) (auto split: prod.splits)
  with v show ?thesis by blast
qed

lemma finished_last:
  assumes "\<not> i < 8" "email_loop p sd env (map entry [i + 1 .. 8]) st t = (tr, st', t', out)"
  shows "out = Finished"
  using assms by simp

lemma step_stop:
  assumes "sequence_step p sd e s st t = (evs, st', t', Return)"
  shows "\<exists>pre v. evs = pre @ [StatusRead (email_num s) v] \<and> v \<in> set STOP_STATUSES
           \<and> (\<forall>j ok. Send j ok \<notin> set pre) \<and> (\<forall>j k w c. Put j k w c \<notin> set pre)"
  using assms
  by (auto simp: sequence_step_eq Let_def split: if_splits)

lemma step_status_read:
  assumes "sequence_step p sd e s st t = (evs, st', t', r)" "StatusRead n v \<in> set evs"
  shows "v = get_sequence_status (status_get e) (apply_writes (ext_writes e) st)
           \<and> (r = Return) = (v \<in> set STOP_STATUSES) \<and> (r = Next) = (v \<notin> set STOP_STATUSES)"
  using assms
  by (auto simp: sequence_step_eq Let_def send_puts_def split: if_splits)

lemma step_last_read:
  assumes "sequence_step p sd e s st t = (evs, st', t', r)" "LastRead n l \<in> set evs"
  shows "l = get_last_email_sent (last_get e) (apply_writes (ext_writes e) st) \<and> r = Next"
  using assms
  by (auto simp: sequence_step_eq Let_def send_puts_def split: if_splits)

lemma step_skip:
  assumes "sequence_step p sd e s st t = (evs, st', t', r)" "LastRead n l \<in> set evs" "email_num s \<le> l"
  shows "(\<forall>j ok. Send j ok \<notin> set evs) \<and> (\<forall>j k w c. Put j k w c \<notin> set evs)"
  using assms
  by (auto simp: sequence_step_eq Let_def send_puts_def split: if_splits)

lemma step_send_failed:
  assumes "sequence_step p sd e s st t = (evs, st', t', r)" "Send n False \<in> set evs"
  shows "r = Next \<and> (\<forall>j k w c. Put j k w c \<notin> set evs)"
  using assms
  by (auto simp: sequence_step_eq Let_def send_puts_def split: if_splits)



lemma loop_run:
  "process_email_sequence p d now0 env st =
     (case email_loop p (case strptime_ymd d of Some x \<Rightarrow> x | None \<Rightarrow> py_now now0) env EMAIL_SCHEDULE st
             (py_now now0) of
        (tr, st', t', out) \<Rightarrow> (tr, st', out))"
  by (simp add: process_email_sequence_def)

lemma run_loop:
  obtains tt where
    "email_loop p (case strptime_ymd d of Some x \<Rightarrow> x | None \<Rightarrow> py_now now0) env EMAIL_SCHEDULE st (py_now now0)
       = (trace (process_email_sequence p d now0 env st), final_deal (process_email_sequence p d now0 env st),
          tt, result (process_email_sequence p d now0 env st))"
proof -
  obtain tr st' tt out where
    "email_loop p (case strptime_ymd d of Some x \<Rightarrow> x | None \<Rightarrow> py_now now0) env EMAIL_SCHEDULE st (py_now now0)
       = (tr, st', tt, out)"
    by (metis prod_cases4)
  then show thesis
    using that [of tt] by (simp add: loop_run trace_def final_deal_def result_def)
qed

lemma run_tags:
  assumes "ev \<in> set (trace (process_email_sequence p d now0 env st))"
  shows "1 \<le> tag ev \<and> tag ev \<le> 8"
proof -
  obtain tt where "email_loop p (case strptime_ymd d of Some x \<Rightarrow> x | None \<Rightarrow> py_now now0) env
       EMAIL_SCHEDULE st (py_now now0)
       = (trace (process_email_sequence p d now0 env st), final_deal (process_email_sequence p d now0 env st),
          tt, result (process_email_sequence p d now0 env st))"
    by (rule run_loop)
  from email_loop_tags [OF this assms] show ?thesis
    by (auto simp: EMAIL_SCHEDULE_entries)
qed

text \<open>A run raises only before its first check: nothing has happened then.\<close>

lemma raise_before_first_check:
  assumes "result (process_email_sequence p d now0 env st) = Raised err"
  shows "trace (process_email_sequence p d now0 env st) = []
    \<and> final_deal (process_email_sequence p d now0 env st) = st"
proof -
  define sd where "sd = (case strptime_ymd d of Some x \<Rightarrow> x | None \<Rightarrow> py_now now0)"
  obtain tt where "email_loop p (case strptime_ymd d of Some x \<Rightarrow> x | None \<Rightarrow> py_now now0) env
       EMAIL_SCHEDULE st (py_now now0)
       = (trace (process_email_sequence p d now0 env st), final_deal (process_email_sequence p d now0 env st),
          tt, result (process_email_sequence p d now0 env st))"
    by (rule run_loop)
  then have loop: "email_loop p sd env EMAIL_SCHEDULE st (py_now now0)
       = (trace (process_email_sequence p d now0 env st), final_deal (process_email_sequence p d now0 env st),
          tt, Raised err)"
    using assms by (simp add: sd_def)
  define js where "js = [2 .. (8::int)]"
  have sch: "EMAIL_SCHEDULE = entry 1 # map entry js"
    by (simp add: js_def EMAIL_SCHEDULE_entries upto_rec1)
  obtain evs st1 t1 r where step: "sequence_step p sd (env 1) (entry 1) st (py_now now0) = (evs, st1, t1, r)"
    by (metis prod_cases4)
  obtain tr2 st2 t2 out2 where rest: "email_loop p sd env (map entry js) st1 t1 = (tr2, st2, t2, out2)"
    by (metis prod_cases4)
  have days: "\<forall>s\<in>set (map entry js). 0 \<le> day s \<and> day s \<le> 30"
    using day_entry_bounds by (auto simp: js_def)
  have whole: "email_loop p sd env EMAIL_SCHEDULE st (py_now now0) =
      (case r of Next \<Rightarrow> (evs @ tr2, st2, t2, out2) | Return \<Rightarrow> (evs, st1, t1, Stopped)
       | Raise e' \<Rightarrow> (evs, st1, t1, Raised e'))"
    by (simp add: sch step rest split: step_end.splits)
  show ?thesis
  proof (cases r)
    case Next
    have "started sd t1"
      using step_started [OF step _ _ disjI1 [OF py_now_le]] Next day_entry_bounds [of 1] by simp
    from started_loop [OF rest this days] have "out2 \<noteq> Raised err"
      by (cases err) simp
    moreover have "out2 = Raised err"
      using loop whole Next by simp
    ultimately show ?thesis by simp
  next
    case Return
    with loop whole show ?thesis by simp
  next
    case (Raise e')
    have "evs = [] \<and> st1 = st"
      using raise_no_events step Raise by blast
    with loop whole Raise show ?thesis by simp
  qed
qed

lemma step_view:
  assumes "ev \<in> set (trace (process_email_sequence p d now0 env st))"
  obtains t1 st1 tt1 evs st2 tt2 r t3 where
    "sequence_step p (case strptime_ymd d of Some x \<Rightarrow> x | None \<Rightarrow> py_now now0) (env (tag ev))
       (entry (tag ev)) st1 tt1 = (evs, st2, tt2, r)"
    "ev \<in> set evs"
    "trace (process_email_sequence p d now0 env st) = t1 @ evs @ t3"
    "\<forall>e\<in>set t1. tag e < tag ev"
    "\<forall>e\<in>set t3. tag ev < tag e"
    "r = Return \<Longrightarrow> t3 = [] \<and> result (process_email_sequence p d now0 env st) = Stopped"
    "r = Next \<Longrightarrow> tag ev < 8 \<Longrightarrow> \<exists>v. StatusRead (tag ev + 1) v \<in> set t3"
    "r = Next \<Longrightarrow> \<not> tag ev < 8 \<Longrightarrow> result (process_email_sequence p d now0 env st) = Finished"
    "r = Return \<or> r = Next"
proof -
  define sd where "sd = (case strptime_ymd d of Some x \<Rightarrow> x | None \<Rightarrow> py_now now0)"
  define i where "i = tag ev"
  obtain tt where "email_loop p (case strptime_ymd d of Some x \<Rightarrow> x | None \<Rightarrow> py_now now0) env
       EMAIL_SCHEDULE st (py_now now0)
       = (trace (process_email_sequence p d now0 env st), final_deal (process_email_sequence p d now0 env st),
          tt, result (process_email_sequence p d now0 env st))"
    by (rule run_loop)
  then have run: "email_loop p sd env EMAIL_SCHEDULE st (py_now now0)
       = (trace (process_email_sequence p d now0 env st), final_deal (process_email_sequence p d now0 env st),
          tt, result (process_email_sequence p d now0 env st))"
    by (simp add: sd_def)
  have bounds: "1 \<le> i" "i \<le> 8"
    using run_tags [OF assms] by (simp_all add: i_def)
  from bounds py_now_le [of now0] show thesis
  proof (cases rule: run_cases [where p = p and sd = sd and env = env and st = st and t = "py_now now0"])
    case (before t1 st1 tt1 out)
    have "trace (process_email_sequence p d now0 env st) = t1"
      using run before(1) by simp
    with assms before(2) show ?thesis by (fastforce simp: i_def)
  next
    case (stop t1 st1 tt1 evs st2 tt2)
    have tr: "trace (process_email_sequence p d now0 env st) = t1 @ evs"
      and res: "result (process_email_sequence p d now0 env st) = Stopped"
      using run stop(2) by simp_all
    have "ev \<in> set evs"
      using assms tr stop(3) by (fastforce simp: i_def)
    with stop(1,3) tr res show ?thesis
      using that [of st1 tt1 evs st2 tt2 Return t1 "[]"]
      by (simp add: i_def sd_def)
  next
    case (cont t1 st1 tt1 evs st2 tt2 t3 st3 tt3 out)
    have tr: "trace (process_email_sequence p d now0 env st) = t1 @ evs @ t3"
      and res: "result (process_email_sequence p d now0 env st) = out"
      using run cont(3) by simp_all
    have "ev \<in> set evs"
      using assms tr cont(4,5) by (fastforce simp: i_def)
    moreover have "i < 8 \<Longrightarrow> \<exists>v. StatusRead (i + 1) v \<in> set t3"
      using status_read_next [OF bounds(1) _ cont(2,6)] by simp
    moreover have "\<not> i < 8 \<Longrightarrow> out = Finished"
      using finished_last [OF _ cont(2)] by simp
    ultimately show ?thesis
      using cont(1,4,5) tr res that [of st1 tt1 evs st2 tt2 Next t1 t3]
      by (simp add: i_def sd_def)
  qed
qed

lemma recorded_step_is_skipped:
  assumes "LastRead i l \<in> set (trace (process_email_sequence p d now0 env st))"
    and "i \<le> l"
  shows "(\<forall>ok. Send i ok \<notin> set (trace (process_email_sequence p d now0 env st)))
    \<and> (\<forall>k w c. Put i k w c \<notin> set (trace (process_email_sequence p d now0 env st)))
    \<and> (i < 8 \<longrightarrow> (\<exists>v. StatusRead (i + 1) v \<in> set (trace (process_email_sequence p d now0 env st))))
    \<and> (i = 8 \<longrightarrow> result (process_email_sequence p d now0 env st) = Finished)"
proof -
  from assms(1) obtain t1 st1 tt1 evs st2 tt2 r t3 where
    step: "sequence_step p (case strptime_ymd d of Some x \<Rightarrow> x | None \<Rightarrow> py_now now0) (env i) (entry i)
       st1 tt1 = (evs, st2, tt2, r)"
    and ev: "LastRead i l \<in> set evs"
    and tr: "trace (process_email_sequence p d now0 env st) = t1 @ evs @ t3"
    and t1: "\<forall>e\<in>set t1. tag e < i"
    and t3: "\<forall>e\<in>set t3. i < tag e"
    and nxt: "r = Next \<Longrightarrow> i < 8 \<Longrightarrow> \<exists>v. StatusRead (i + 1) v \<in> set t3"
    and fin: "r = Next \<Longrightarrow> \<not> i < 8 \<Longrightarrow> result (process_email_sequence p d now0 env st) = Finished"
    by (rule step_view [where ev = "LastRead i l"]) simp_all
  have nb: "r = Next"
    using step_last_read [OF step ev] by simp
  have "email_num (entry i) \<le> l"
    using assms(2) by simp
  from step_skip [OF step ev this]
  have ns: "\<forall>j ok. Send j ok \<notin> set evs" and np: "\<forall>j k w c. Put j k w c \<notin> set evs"
    by simp_all
  have "\<forall>ok. Send i ok \<notin> set (t1 @ evs @ t3)"
    using t1 t3 ns by fastforce
  moreover have "\<forall>k w c. Put i k w c \<notin> set (t1 @ evs @ t3)"
    using t1 t3 np by fastforce
  ultimately show ?thesis
    using tr nxt [OF nb] fin [OF nb] by auto
qed

lemma read_fails_readers:
  assumes "read_fails g"
  shows "get_sequence_status g st = JStr [] \<and> get_last_email_sent g st = 0"
  using assms
  by (cases g) (auto simp: get_sequence_status_def get_last_email_sent_def get_deal_info_def
      pipedrive_get_def)

lemma step_read_fails:
  assumes "sequence_step p sd e s st t = (evs, st', t', r)" "r \<noteq> Raise OverflowError"
    and "read_fails (status_get e)" "read_fails (last_get e)" "1 \<le> email_num s"
  shows "r = Next \<and> StatusRead (email_num s) (JStr []) \<in> set evs \<and> LastRead (email_num s) 0 \<in> set evs
    \<and> (\<exists>ok. Send (email_num s) ok \<in> set evs)"
  using assms read_fails_readers [OF assms(3)] read_fails_readers [OF assms(4)]
  by (auto simp: sequence_step_eq Let_def STOP_STATUSES_def split: if_splits)

section \<open>What the deal records\<close>

lemma deal_get_update:
  "deal_get (AList.update k v st) k' = (if k' = k then v else deal_get st k')"
  by (simp add: deal_get_def update_conv')

lemma get_last_email_sent_parse:
  "get_last_email_sent g st =
     (case get_deal_info g st of None \<Rightarrow> 0 | Some d \<Rightarrow> parse_last (deal_get d KEY_laatste_email))"
  by (auto simp: get_last_email_sent_def parse_last_def deal_get_def Let_def split: option.splits)

lemma recorded_parse: "recorded st = parse_last (deal_get st KEY_laatste_email)"
  by (simp add: recorded_def get_last_email_sent_parse get_deal_info_def pipedrive_get_def)

lemma get_last_Fresh: "get_last_email_sent Fresh st = recorded st"
  by (simp add: recorded_def)

lemma recorded_update_other: "k \<noteq> KEY_laatste_email \<Longrightarrow> recorded (AList.update k v st) = recorded st"
  by (simp add: recorded_parse deal_get_update)

lemma recorded_update_last: "recorded (AList.update KEY_laatste_email v st) = parse_last v"
  by (simp add: recorded_parse deal_get_update)

lemma parse_last_email:
  assumes "n \<in> set EMAIL_TEMPLATE_KEYS"
  shows "parse_last (JStr (''Email '' @ py_str_int n)) = n"
proof -
  have "parse_last (JStr (''Email '' @ py_str_int 1)) = 1" by code_simp
  moreover have "parse_last (JStr (''Email '' @ py_str_int 2)) = 2" by code_simp
  moreover have "parse_last (JStr (''Email '' @ py_str_int 3)) = 3" by code_simp
  moreover have "parse_last (JStr (''Email '' @ py_str_int 4)) = 4" by code_simp
  moreover have "parse_last (JStr (''Email '' @ py_str_int 5)) = 5" by code_simp
  moreover have "parse_last (JStr (''Email '' @ py_str_int 6)) = 6" by code_simp
  moreover have "parse_last (JStr (''Email '' @ py_str_int 7)) = 7" by code_simp
  moreover have "parse_last (JStr (''Email '' @ py_str_int 8)) = 8" by code_simp
  ultimately show ?thesis
    using assms unfolding EMAIL_TEMPLATE_KEYS_def by auto
qed

lemma recorded_apply_writes:
  "KEY_laatste_email \<notin> fst ` set ws \<Longrightarrow> recorded (apply_writes ws st) = recorded st"
  unfolding apply_writes_def
  by (induction ws arbitrary: st) (auto simp: recorded_update_other)

lemma replay_append: "replay (a @ b) st = replay b (replay a st)"
  by (simp add: replay_def)

lemma replay_Cons: "replay (ev # evs) st = replay evs (apply_event ev st)"
  by (simp add: replay_def)

lemma replay_Nil: "replay [] st = st"
  by (simp add: replay_def)

lemma writes_nondecreasing_append:
  "writes_nondecreasing (a @ b) st
     = (writes_nondecreasing a st \<and> writes_nondecreasing b (replay a st))"
  by (induction a st rule: writes_nondecreasing.induct) (simp_all add: replay_Cons replay_Nil)

lemma recorded_after_puts:
  assumes "n \<in> set EMAIL_TEMPLATE_KEYS"
  shows "recorded (replay (send_puts e n) st) = (if put_last_ok e then n else recorded st)"
  using parse_last_email [OF assms] parse_last_email [of 8]
  by (simp add: send_puts_def replay_Cons replay_Nil recorded_update_other recorded_update_last
      EMAIL_TEMPLATE_KEYS_def)

lemma step_replay:
  assumes "sequence_step p sd e s st t = (evs, st', t', r)"
  shows "replay evs st = st'"
  using assms
  by (auto simp: sequence_step_eq Let_def replay_Cons replay_Nil replay_append split: if_splits)

lemma writes_nondecreasing_puts:
  assumes "n \<in> set EMAIL_TEMPLATE_KEYS" "recorded st \<le> n"
  shows "writes_nondecreasing (send_puts e n) st"
  using assms(2) parse_last_email [OF assms(1)] parse_last_email [of 8]
  by (simp add: send_puts_def recorded_update_last EMAIL_TEMPLATE_KEYS_def)

lemma step_writes_nondecreasing:
  assumes "sequence_step p sd e s st t = (evs, st', t', r)" "last_get e = Fresh"
  shows "writes_nondecreasing evs st"
  using assms
  by (auto simp: sequence_step_eq Let_def get_last_Fresh writes_nondecreasing_append
      replay_Cons replay_Nil writes_nondecreasing_puts split: if_splits)

lemma loop_writes_nondecreasing:
  assumes "email_loop p sd env ss st t = (tr, st', t', out)"
    and "\<forall>s\<in>set ss. last_get (env (email_num s)) = Fresh"
  shows "writes_nondecreasing tr st \<and> replay tr st = st'"
  using assms
proof (induction ss arbitrary: st t tr st' t' out)
  case Nil
  then show ?case by (simp add: replay_Nil)
next
  case (Cons s ss)
  obtain evs st1 t1 r where step: "sequence_step p sd (env (email_num s)) s st t = (evs, st1, t1, r)"
    by (metis prod_cases4)
  have wn: "writes_nondecreasing evs st" and rp: "replay evs st = st1"
    using step_writes_nondecreasing [OF step] step_replay [OF step] Cons.prems(2) by simp_all
  obtain tr2 st2 t2 out2 where rest: "email_loop p sd env ss st1 t1 = (tr2, st2, t2, out2)"
    by (metis prod_cases4)
  from Cons.IH [OF rest] Cons.prems(2)
  have ih: "writes_nondecreasing tr2 st1 \<and> replay tr2 st1 = st2" by simp
  show ?case
  proof (cases r)
    case Next
    with Cons.prems(1) step rest ih wn rp show ?thesis
      by (auto simp: writes_nondecreasing_append replay_append)
  next
    case Return
    with Cons.prems(1) step wn rp show ?thesis by auto
  next
    case (Raise err)
    with Cons.prems(1) step wn rp show ?thesis by auto
  qed
qed

lemma run_many_writes_nondecreasing:
  assumes "\<forall>r\<in>set rs. \<forall>i\<in>{1..8}. last_get (envs r i) = Fresh"
  shows "writes_nondecreasing (fst (run_many p rs st)) st
    \<and> replay (fst (run_many p rs st)) st = snd (run_many p rs st)"
  using assms
proof (induction rs arbitrary: st)
  case Nil
  show ?case by (simp add: replay_Nil)
next
  case (Cons r rs)
  obtain tr st1 out where run: "process_email_sequence p (apk_sent_date r) (clock0 r) (envs r) st
      = (tr, st1, out)"
    by (metis prod_cases3)
  have fresh: "\<forall>s\<in>set EMAIL_SCHEDULE. last_get (envs r (email_num s)) = Fresh"
    using Cons.prems by (auto simp: EMAIL_SCHEDULE_entries)
  obtain tt where "email_loop p (case strptime_ymd (apk_sent_date r) of Some x \<Rightarrow> x | None \<Rightarrow> py_now (clock0 r))
       (envs r) EMAIL_SCHEDULE st (py_now (clock0 r))
       = (trace (process_email_sequence p (apk_sent_date r) (clock0 r) (envs r) st),
          final_deal (process_email_sequence p (apk_sent_date r) (clock0 r) (envs r) st),
          tt, result (process_email_sequence p (apk_sent_date r) (clock0 r) (envs r) st))"
    by (rule run_loop)
  from loop_writes_nondecreasing [OF this fresh] run
  have one: "writes_nondecreasing tr st \<and> replay tr st = st1"
    by (simp add: trace_def final_deal_def)
  obtain tr2 st2 where rest: "run_many p rs st1 = (tr2, st2)"
    by (metis surj_pair)
  from Cons.IH [of st1] Cons.prems rest
  have "writes_nondecreasing tr2 st1 \<and> replay tr2 st1 = st2" by simp
  with run one rest show ?case
    by (simp add: writes_nondecreasing_append replay_append)
qed

lemma sends_append: "sends (a @ b) = sends a @ sends b"
  by (induction a rule: sends.induct) simp_all

lemma delivered_append: "delivered (a @ b) = delivered a @ delivered b"
  by (simp add: delivered_def sends_append)

lemma sends_send_puts: "sends (send_puts e n) = []"
  by (simp add: send_puts_def)

lemma sends_step:
  assumes "sequence_step p sd e s st t = (evs, st', t', r)"
  shows "evs = [] \<and> st' = st
    \<or> sends evs = [] \<and> recorded st' = recorded (apply_writes (ext_writes e) st)
    \<or> sends evs = [(email_num s, False)] \<and> st' = apply_writes (ext_writes e) st
        \<and> get_last_email_sent (last_get e) (apply_writes (ext_writes e) st) < email_num s
    \<or> sends evs = [(email_num s, True)] \<and> email_num s \<in> set EMAIL_TEMPLATE_KEYS
        \<and> st' = replay (send_puts e (email_num s)) (apply_writes (ext_writes e) st)
        \<and> get_last_email_sent (last_get e) (apply_writes (ext_writes e) st) < email_num s"
  using assms
  by (auto simp: sequence_step_eq Let_def sends_append sends_send_puts split: if_splits)

lemma step_sent_bounds:
  assumes "sequence_step p sd e s st t = (evs, st', t', r)"
    and "last_get e = Fresh" "KEY_laatste_email \<notin> fst ` set (ext_writes e)"
  shows "recorded st \<le> recorded st'
    \<and> (\<forall>x\<in>set (sends evs). recorded st < fst x)
    \<and> (put_last_ok e \<longrightarrow> (\<forall>j\<in>set (delivered evs). j \<le> recorded st'))
    \<and> length (delivered evs) \<le> 1"
  using sends_step [OF assms(1)] assms(2,3)
  by (auto simp: get_last_Fresh recorded_apply_writes recorded_after_puts delivered_def)

lemma loop_sent_bounds:
  assumes "email_loop p sd env ss st t = (tr, st', t', out)"
    and "\<forall>s\<in>set ss. last_get (env (email_num s)) = Fresh
           \<and> KEY_laatste_email \<notin> fst ` set (ext_writes (env (email_num s)))"
  shows "recorded st \<le> recorded st'
    \<and> (\<forall>x\<in>set (sends tr). recorded st < fst x)
    \<and> ((\<forall>s\<in>set ss. put_last_ok (env (email_num s)))
          \<longrightarrow> (\<forall>j\<in>set (delivered tr). j \<le> recorded st') \<and> sorted_wrt (<) (delivered tr))"
  using assms
proof (induction ss arbitrary: st t tr st' t' out)
  case Nil
  then show ?case by (simp add: delivered_def)
next
  case (Cons s ss)
  obtain evs st1 t1 r where step: "sequence_step p sd (env (email_num s)) s st t = (evs, st1, t1, r)"
    by (metis prod_cases4)
  from step_sent_bounds [OF step] Cons.prems(2)
  have s1: "recorded st \<le> recorded st1"
    and s2: "\<forall>x\<in>set (sends evs). recorded st < fst x"
    and s3: "put_last_ok (env (email_num s)) \<longrightarrow> (\<forall>j\<in>set (delivered evs). j \<le> recorded st1)"
    and s4: "length (delivered evs) \<le> 1"
    by simp_all
  have s5: "sorted_wrt (<) (delivered evs)"
    using s4 by (cases "delivered evs") auto
  show ?case
  proof (cases "r = Next")
    case False
    then have "tr = evs \<and> st' = st1"
      using Cons.prems(1) step by (cases r) auto
    with s1 s2 s3 s5 show ?thesis by auto
  next
    case True
    obtain tr2 st2 t2 out2 where rest: "email_loop p sd env ss st1 t1 = (tr2, st2, t2, out2)"
      by (metis prod_cases4)
    from Cons.IH [OF rest] Cons.prems(2)
    have r1: "recorded st1 \<le> recorded st2"
      and r2: "\<forall>x\<in>set (sends tr2). recorded st1 < fst x"
      and r3: "(\<forall>s\<in>set ss. put_last_ok (env (email_num s)))
          \<longrightarrow> (\<forall>j\<in>set (delivered tr2). j \<le> recorded st2) \<and> sorted_wrt (<) (delivered tr2)"
      by simp_all
    have whole: "tr = evs @ tr2" "st' = st2"
      using Cons.prems(1) step True rest by simp_all
    have a: "recorded st \<le> recorded st'"
      using s1 r1 whole by simp
    have b: "\<forall>x\<in>set (sends tr). recorded st < fst x"
      using s1 s2 r2 whole by (fastforce simp: sends_append)
    have c: "(\<forall>j\<in>set (delivered tr). j \<le> recorded st') \<and> sorted_wrt (<) (delivered tr)"
      if ok: "\<forall>s\<in>set (s # ss). put_last_ok (env (email_num s))"
    proof -
      have d2: "\<forall>j\<in>set (delivered tr2). recorded st1 < j"
        using r2 by (auto simp: delivered_def)
      have d1: "\<forall>j\<in>set (delivered evs). j \<le> recorded st1"
        using s3 ok by simp
      have "\<forall>x\<in>set (delivered evs). \<forall>y\<in>set (delivered tr2). x < y"
        using d1 d2 by fastforce
      moreover have "(\<forall>j\<in>set (delivered tr2). j \<le> recorded st2) \<and> sorted_wrt (<) (delivered tr2)"
        using r3 ok by simp
      ultimately show ?thesis
        using d1 r1 s5 whole by (fastforce simp: delivered_append sorted_wrt_append)
    qed
    from a b c show ?thesis by blast
  qed
qed

lemma run_sent_bounds:
  assumes "\<forall>i\<in>{1..8}. last_get (env i) = Fresh \<and> KEY_laatste_email \<notin> fst ` set (ext_writes (env i))"
  shows "recorded st \<le> recorded (final_deal (process_email_sequence p d now0 env st))
    \<and> (\<forall>x\<in>set (sends (trace (process_email_sequence p d now0 env st))). recorded st < fst x)
    \<and> ((\<forall>i\<in>{1..8}. put_last_ok (env i))
          \<longrightarrow> (\<forall>j\<in>set (delivered (trace (process_email_sequence p d now0 env st))).
                  j \<le> recorded (final_deal (process_email_sequence p d now0 env st)))
              \<and> sorted_wrt (<) (delivered (trace (process_email_sequence p d now0 env st))))"
proof -
  have e: "\<forall>s\<in>set EMAIL_SCHEDULE. last_get (env (email_num s)) = Fresh
           \<and> KEY_laatste_email \<notin> fst ` set (ext_writes (env (email_num s)))"
    using assms by (auto simp: EMAIL_SCHEDULE_entries)
  have f: "(\<forall>i\<in>{1..8}. put_last_ok (env i)) \<Longrightarrow> \<forall>s\<in>set EMAIL_SCHEDULE. put_last_ok (env (email_num s))"
    by (auto simp: EMAIL_SCHEDULE_entries)
  obtain tt where "email_loop p (case strptime_ymd d of Some x \<Rightarrow> x | None \<Rightarrow> py_now now0) env
       EMAIL_SCHEDULE st (py_now now0)
       = (trace (process_email_sequence p d now0 env st), final_deal (process_email_sequence p d now0 env st),
          tt, result (process_email_sequence p d now0 env st))"
    by (rule run_loop)
  from loop_sent_bounds [OF this e] f show ?thesis
    by simp
qed

lemma run_many_sent_bounds:
  assumes "\<forall>r\<in>set rs. \<forall>i\<in>{1..8}. last_get (envs r i) = Fresh \<and> put_last_ok (envs r i)
             \<and> KEY_laatste_email \<notin> fst ` set (ext_writes (envs r i))"
  shows "recorded st \<le> recorded (snd (run_many p rs st))
    \<and> (\<forall>j\<in>set (delivered (fst (run_many p rs st))). recorded st < j \<and> j \<le> recorded (snd (run_many p rs st)))
    \<and> sorted_wrt (<) (delivered (fst (run_many p rs st)))"
  using assms
proof (induction rs arbitrary: st)
  case Nil
  show ?case by (simp add: delivered_def)
next
  case (Cons r rs)
  obtain tr st1 out where run: "process_email_sequence p (apk_sent_date r) (clock0 r) (envs r) st
      = (tr, st1, out)"
    by (metis prod_cases3)
  obtain tr2 st2 where rest: "run_many p rs st1 = (tr2, st2)"
    by (metis surj_pair)
  have e: "\<forall>i\<in>{1..8}. last_get (envs r i) = Fresh \<and> KEY_laatste_email \<notin> fst ` set (ext_writes (envs r i))"
    and ok: "\<forall>i\<in>{1..8}. put_last_ok (envs r i)"
    using Cons.prems by simp_all
  from run_sent_bounds [OF e, where st = st and p = p and d = "apk_sent_date r" and ?now0.0 = "clock0 r"] ok run
  have a1: "recorded st \<le> recorded st1"
    and a2: "\<forall>x\<in>set (sends tr). recorded st < fst x"
    and a3: "\<forall>j\<in>set (delivered tr). j \<le> recorded st1"
    and a4: "sorted_wrt (<) (delivered tr)"
    by (simp_all add: trace_def final_deal_def)
  from Cons.IH [of st1] Cons.prems rest
  have b1: "recorded st1 \<le> recorded st2"
    and b2: "\<forall>j\<in>set (delivered tr2). recorded st1 < j \<and> j \<le> recorded st2"
    and b3: "sorted_wrt (<) (delivered tr2)"
    by simp_all
  have a2': "\<forall>j\<in>set (delivered tr). recorded st < j"
    using a2 by (auto simp: delivered_def)
  have "\<forall>x\<in>set (delivered tr). \<forall>y\<in>set (delivered tr2). x < y"
    using a3 b2 by fastforce
  with a1 a2' a3 a4 b1 b2 b3 run rest show ?case
    by (fastforce simp: delivered_append sorted_wrt_append)
qed

lemma sends_set: "(j, ok) \<in> set (sends tr) \<longleftrightarrow> Send j ok \<in> set tr"
  by (induction tr rule: sends.induct) auto

lemma status_reads_append: "status_reads (a @ b) = status_reads a @ status_reads b"
  by (induction a rule: status_reads.induct) simp_all

lemma status_reads_send_puts: "status_reads (send_puts e n) = []"
  by (simp add: send_puts_def)

lemma recorded_status_get: "recorded_status st = deal_get st KEY_email_sequence_status"
  by (simp add: recorded_status_def get_sequence_status_def get_deal_info_def pipedrive_get_def
      deal_get_def)

lemma recorded_status_after_puts:
  "put_status_ok e \<Longrightarrow> recorded_status (replay (send_puts e 8) st) = JStr ''Voltooid''"
  by (simp add: send_puts_def replay_Cons replay_Nil recorded_status_get deal_get_update)

lemma last_reads_append: "last_reads (a @ b) = last_reads a @ last_reads b"
  by (induction a rule: last_reads.induct) simp_all

lemma writes_append: "writes (a @ b) = writes a @ writes b"
  by (induction a rule: writes.induct) simp_all

lemma last_reads_send_puts: "last_reads (send_puts e n) = []"
  by (simp add: send_puts_def)

lemma step_observed_attempt:
  assumes "sequence_step p sd e s st t = (evs, st', t', r)" "r \<noteq> Raise OverflowError"
    and "\<forall>v\<in>set (status_reads evs). v \<notin> set STOP_STATUSES"
    and "\<forall>x\<in>set (last_reads evs). snd x < fst x"
  shows "r = Next \<and> map fst (sends evs) = [email_num s]"
  using assms
  by (auto simp: sequence_step_eq Let_def status_reads_append status_reads_send_puts sends_append
      sends_send_puts last_reads_append last_reads_send_puts split: if_splits)

lemma step_observed_good:
  assumes "sequence_step p sd e s st t = (evs, st', t', r)" "r \<noteq> Raise OverflowError"
    and "\<forall>v\<in>set (status_reads evs). v \<notin> set STOP_STATUSES"
    and "\<forall>x\<in>set (last_reads evs). snd x < fst x"
    and "\<forall>x\<in>set (sends evs). snd x"
  shows "r = Next \<and> sends evs = [(email_num s, True)]
    \<and> writes evs = writes (send_puts e (email_num s))
    \<and> st' = replay (send_puts e (email_num s)) (apply_writes (ext_writes e) st)"
  using assms
  by (auto simp: sequence_step_eq Let_def status_reads_append status_reads_send_puts sends_append
      sends_send_puts last_reads_append last_reads_send_puts writes_append split: if_splits)

text \<open>
  A started run in which no status read says stop and every read of the last e-mail
  lies below its e-mail calls \<^verbatim>\<open>send_sequence_email\<close> once for every entry and ends
  regularly.
\<close>

lemma loop_observed_attempts:
  assumes "email_loop p sd env (map entry js) st t = (tr, st', t', out)" "started sd t"
    and "\<forall>i\<in>set js. 1 \<le> i \<and> i \<le> 8"
    and "\<forall>v\<in>set (status_reads tr). v \<notin> set STOP_STATUSES"
    and "\<forall>x\<in>set (last_reads tr). snd x < fst x"
  shows "map fst (sends tr) = js \<and> out = Finished"
  using assms
proof (induction js arbitrary: st t tr st' t' out)
  case Nil
  then show ?case by simp
next
  case (Cons i js)
  obtain evs st1 t1 r where step: "sequence_step p sd (env i) (entry i) st t = (evs, st1, t1, r)"
    by (metis prod_cases4)
  obtain tr2 st2 t2 out2 where rest: "email_loop p sd env (map entry js) st1 t1 = (tr2, st2, t2, out2)"
    by (metis prod_cases4)
  have days: "0 \<le> day (entry i)" "day (entry i) \<le> 30"
    using day_entry_bounds [of i] Cons.prems(3) by simp_all
  from started_step [OF step Cons.prems(2) days]
  have r: "r \<noteq> Raise OverflowError" and s1: "started sd t1"
    by simp_all
  have pre: "set (status_reads evs) \<subseteq> set (status_reads tr)"
    "set (last_reads evs) \<subseteq> set (last_reads tr)"
    using Cons.prems(1) step
    by (cases r; auto simp: status_reads_append last_reads_append split: prod.splits)+
  have g1: "\<forall>v\<in>set (status_reads evs). v \<notin> set STOP_STATUSES"
    using pre(1) Cons.prems(4) by blast
  have g2: "\<forall>x\<in>set (last_reads evs). snd x < fst x"
    using pre(2) Cons.prems(5) by blast
  from step_observed_attempt [OF step r g1 g2]
  have good: "r = Next" "map fst (sends evs) = [i]"
    by simp_all
  have whole: "tr = evs @ tr2" "out = out2"
    using Cons.prems(1) step good(1) rest by simp_all
  have "map fst (sends tr2) = js \<and> out2 = Finished"
    using Cons.IH [OF rest s1] Cons.prems(3,4,5) whole(1)
    by (simp add: status_reads_append last_reads_append)
  with whole good(2) show ?case
    by (simp add: sends_append)
qed

lemma loop_observed_good:
  assumes "email_loop p sd env (map entry js) st t = (tr, st', t', out)" "started sd t"
    and "\<forall>i\<in>set js. 1 \<le> i \<and> i \<le> 8"
    and "\<forall>v\<in>set (status_reads tr). v \<notin> set STOP_STATUSES"
    and "\<forall>x\<in>set (last_reads tr). snd x < fst x"
    and "\<forall>x\<in>set (sends tr). snd x"
  shows "sends tr = map (\<lambda>i. (i, True)) js
    \<and> writes tr = concat (map (\<lambda>i. writes (send_puts (env i) i)) js)
    \<and> out = Finished
    \<and> (js \<noteq> [] \<longrightarrow> (\<exists>s0. st' = replay (send_puts (env (last js)) (last js)) s0))"
  using assms
proof (induction js arbitrary: st t tr st' t' out)
  case Nil
  then show ?case by simp
next
  case (Cons i js)
  obtain evs st1 t1 r where step: "sequence_step p sd (env i) (entry i) st t = (evs, st1, t1, r)"
    by (metis prod_cases4)
  obtain tr2 st2 t2 out2 where rest: "email_loop p sd env (map entry js) st1 t1 = (tr2, st2, t2, out2)"
    by (metis prod_cases4)
  have days: "0 \<le> day (entry i)" "day (entry i) \<le> 30"
    using day_entry_bounds [of i] Cons.prems(3) by simp_all
  from started_step [OF step Cons.prems(2) days]
  have r: "r \<noteq> Raise OverflowError" and s1: "started sd t1"
    by simp_all
  have pre: "set (status_reads evs) \<subseteq> set (status_reads tr)"
    "set (last_reads evs) \<subseteq> set (last_reads tr)" "set (sends evs) \<subseteq> set (sends tr)"
    using Cons.prems(1) step
    by (cases r; auto simp: status_reads_append last_reads_append sends_append split: prod.splits)+
  have g1: "\<forall>v\<in>set (status_reads evs). v \<notin> set STOP_STATUSES"
    using pre(1) Cons.prems(4) by blast
  have g2: "\<forall>x\<in>set (last_reads evs). snd x < fst x"
    using pre(2) Cons.prems(5) by blast
  have g3: "\<forall>x\<in>set (sends evs). snd x"
    using pre(3) Cons.prems(6) by blast
  from step_observed_good [OF step r g1 g2 g3]
  have good: "r = Next" "sends evs = [(i, True)]" "writes evs = writes (send_puts (env i) i)"
    "st1 = replay (send_puts (env i) i) (apply_writes (ext_writes (env i)) st)"
    by simp_all
  have whole: "tr = evs @ tr2" "st' = st2" "out = out2"
    using Cons.prems(1) step good(1) rest by simp_all
  have ih: "sends tr2 = map (\<lambda>i. (i, True)) js
    \<and> writes tr2 = concat (map (\<lambda>i. writes (send_puts (env i) i)) js)
    \<and> out2 = Finished
    \<and> (js \<noteq> [] \<longrightarrow> (\<exists>s0. st2 = replay (send_puts (env (last js)) (last js)) s0))"
    using Cons.IH [OF rest s1] Cons.prems(3,4,5,6) whole(1)
    by (simp add: status_reads_append last_reads_append sends_append)
  have fin: "\<exists>s0. st' = replay (send_puts (env (last (i # js))) (last (i # js))) s0"
  proof (cases js)
    case Nil
    with rest whole good(4) show ?thesis by auto
  next
    case (Cons j js')
    with ih whole show ?thesis by simp
  qed
  show ?case
    using whole good(2,3) ih fin by (simp add: sends_append writes_append)
qed

lemma writes_send_puts:
  "writes (send_puts e n) =
     (KEY_laatste_email, JStr (''Email '' @ py_str_int n))
     # (if n = 8 then [(KEY_email_sequence_status, JStr ''Voltooid'')] else [])"
  by (simp add: send_puts_def)

lemma py_str_int_1_8:
  "py_str_int 1 = ''1''" "py_str_int 2 = ''2''" "py_str_int 3 = ''3''" "py_str_int 4 = ''4''"
  "py_str_int 5 = ''5''" "py_str_int 6 = ''6''" "py_str_int 7 = ''7''" "py_str_int 8 = ''8''"
  by code_simp+

text \<open>
  The same for a run that begins with the loop: when its first iteration gets to its
  checks, the run is started.
\<close>

lemma run_observed_good:
  assumes "email_loop p sd env (map entry (i # js)) st t = (tr, st', t', out)" "t \<le> CLOCK_MAX"
    and "status_reads tr \<noteq> []"
    and "\<forall>i\<in>set (i # js). 1 \<le> i \<and> i \<le> 8"
    and "\<forall>v\<in>set (status_reads tr). v \<notin> set STOP_STATUSES"
    and "\<forall>x\<in>set (last_reads tr). snd x < fst x"
    and "\<forall>x\<in>set (sends tr). snd x"
  shows "sends tr = map (\<lambda>i. (i, True)) (i # js)
    \<and> writes tr = concat (map (\<lambda>i. writes (send_puts (env i) i)) (i # js))
    \<and> out = Finished
    \<and> (\<exists>s0. st' = replay (send_puts (env (last (i # js))) (last (i # js))) s0)"
proof -
  obtain evs st1 t1 r where step: "sequence_step p sd (env i) (entry i) st t = (evs, st1, t1, r)"
    by (metis prod_cases4)
  obtain tr2 st2 t2 out2 where rest: "email_loop p sd env (map entry js) st1 t1 = (tr2, st2, t2, out2)"
    by (metis prod_cases4)
  have r: "r \<noteq> Raise OverflowError"
  proof
    assume raised: "r = Raise OverflowError"
    then have "evs = []"
      using raise_no_events step by blast
    with assms(1) step raised have "tr = []" by simp
    with assms(3) show False by simp
  qed
  have "0 \<le> day (entry i)"
    using day_entry_bounds [of i] assms(4) by simp
  from step_started [OF step r this] assms(2) have s1: "started sd t1"
    by simp
  have pre: "set (status_reads evs) \<subseteq> set (status_reads tr)"
    "set (last_reads evs) \<subseteq> set (last_reads tr)" "set (sends evs) \<subseteq> set (sends tr)"
    using assms(1) step
    by (cases r; auto simp: status_reads_append last_reads_append sends_append split: prod.splits)+
  have g1: "\<forall>v\<in>set (status_reads evs). v \<notin> set STOP_STATUSES"
    using pre(1) assms(5) by blast
  have g2: "\<forall>x\<in>set (last_reads evs). snd x < fst x"
    using pre(2) assms(6) by blast
  have g3: "\<forall>x\<in>set (sends evs). snd x"
    using pre(3) assms(7) by blast
  from step_observed_good [OF step r g1 g2 g3]
  have good: "r = Next" "sends evs = [(i, True)]" "writes evs = writes (send_puts (env i) i)"
    "st1 = replay (send_puts (env i) i) (apply_writes (ext_writes (env i)) st)"
    by simp_all
  have whole: "tr = evs @ tr2" "st' = st2" "out = out2"
    using assms(1) step good(1) rest by simp_all
  have ih: "sends tr2 = map (\<lambda>i. (i, True)) js
    \<and> writes tr2 = concat (map (\<lambda>i. writes (send_puts (env i) i)) js)
    \<and> out2 = Finished
    \<and> (js \<noteq> [] \<longrightarrow> (\<exists>s0. st2 = replay (send_puts (env (last js)) (last js)) s0))"
    using loop_observed_good [OF rest s1] assms(4,5,6,7) whole(1)
    by (simp add: status_reads_append last_reads_append sends_append)
  have fin: "\<exists>s0. st' = replay (send_puts (env (last (i # js))) (last (i # js))) s0"
  proof (cases js)
    case Nil
    with rest whole good(4) show ?thesis by auto
  next
    case (Cons j js')
    with ih whole show ?thesis by simp
  qed
  show ?thesis
    using whole good(2,3) ih fin by (simp add: sends_append writes_append)
qed

text \<open>
  Two runs that raise, both started on 2026-11-04 with everything else in order.  With
  the start date 9999-12-31 the first send date lies after the last \<^verbatim>\<open>datetime\<close>; with the
  start date 2400-01-01 the first wait is longer than \<^verbatim>\<open>time.sleep\<close> accepts.  Nothing is
  checked or sent.
\<close>

lemma start_date_out_of_reach:
  "process_email_sequence (Some ''secret'') ''9999-12-31'' 63929347201000000 env_ok deal_new
     = ([], deal_new, Raised OverflowError)"
  "process_email_sequence (Some ''secret'') ''2400-01-01'' 63929347201000000 env_ok deal_new
     = ([], deal_new, Raised OverflowError)"
  by code_simp+

text \<open>An iteration raises exactly when the send date or the wait is out of range.\<close>

lemma step_raises_iff:
  "(\<exists>evs st' t'. sequence_step p sd e s st t = (evs, st', t', Raise OverflowError))
     \<longleftrightarrow> MAX_DATETIME < sd + day s * usec_per_day
        \<or> SLEEP_MAX < sd + day s * usec_per_day - max t (py_now (now e))"
  using limits(3) by (auto simp: sequence_step_eq Let_def)

section \<open>Claims\<close>

text \<open>
  C1 (amended).  Take a run that gets to its checks, in which no status read returns
  \<open>Gepauzeerd\<close> or \<open>Voltooid\<close>, in which the read of the last e-mail at the check of e-mail
  \<open>i\<close> returns a number below \<open>i\<close> (it shows what the run itself has written: \<open>i - 1\<close>
  when everything before went out), and in which every call of \<^verbatim>\<open>send_sequence_email\<close>
  returns \<open>True\<close>.  Then there are exactly eight such calls, one for each e-mail of the
  schedule in order; the run issues the writes \<open>Email 1\<close> to \<open>Email 8\<close> and at last the
  status \<open>Voltooid\<close>; the loop ends regularly; and the deal records e-mail 8 and the status
  \<open>Voltooid\<close> in the end when the two PUT requests after e-mail 8 are committed.

  A run does not get to its checks when the start date lies so far ahead of the clock
  that the first send date or the first wait is out of range: it raises
  \<^verbatim>\<open>OverflowError\<close> and has read no status at all.
\<close>

theorem uncancelled_run_sends_all:
  assumes "status_reads (trace (process_email_sequence p d now0 env st)) \<noteq> []"
    and "\<forall>v\<in>set (status_reads (trace (process_email_sequence p d now0 env st))).
           v \<noteq> JStr ''Gepauzeerd'' \<and> v \<noteq> JStr ''Voltooid''"
    and "\<forall>x\<in>set (last_reads (trace (process_email_sequence p d now0 env st))). snd x < fst x"
    and "\<forall>x\<in>set (sends (trace (process_email_sequence p d now0 env st))). snd x"
  shows "sends (trace (process_email_sequence p d now0 env st))
      = [(1, True), (2, True), (3, True), (4, True), (5, True), (6, True), (7, True), (8, True)]
    \<and> writes (trace (process_email_sequence p d now0 env st))
      = [(KEY_laatste_email, JStr ''Email 1''), (KEY_laatste_email, JStr ''Email 2''),
         (KEY_laatste_email, JStr ''Email 3''), (KEY_laatste_email, JStr ''Email 4''),
         (KEY_laatste_email, JStr ''Email 5''), (KEY_laatste_email, JStr ''Email 6''),
         (KEY_laatste_email, JStr ''Email 7''), (KEY_laatste_email, JStr ''Email 8''),
         (KEY_email_sequence_status, JStr ''Voltooid'')]
    \<and> result (process_email_sequence p d now0 env st) = Finished
    \<and> (put_last_ok (env 8) \<longrightarrow> recorded (final_deal (process_email_sequence p d now0 env st)) = 8)
    \<and> (put_status_ok (env 8) \<longrightarrow>
          recorded_status (final_deal (process_email_sequence p d now0 env st)) = JStr ''Voltooid'')"
proof -
  define tr where "tr = trace (process_email_sequence p d now0 env st)"
  define st' where "st' = final_deal (process_email_sequence p d now0 env st)"
  define out where "out = result (process_email_sequence p d now0 env st)"
  define js where "js = [2, 3, 4, 5, 6, 7, (8::int)]"
  obtain tt where "email_loop p (case strptime_ymd d of Some x \<Rightarrow> x | None \<Rightarrow> py_now now0) env
       EMAIL_SCHEDULE st (py_now now0)
       = (trace (process_email_sequence p d now0 env st), final_deal (process_email_sequence p d now0 env st),
          tt, result (process_email_sequence p d now0 env st))"
    by (rule run_loop)
  then have loop: "email_loop p (case strptime_ymd d of Some x \<Rightarrow> x | None \<Rightarrow> py_now now0) env
      (map entry (1 # js)) st (py_now now0) = (tr, st', tt, out)"
    by (simp add: EMAIL_SCHEDULE_entries upto_rec1 tr_def st'_def out_def js_def)
  have n: "status_reads tr \<noteq> []"
    using assms(1) by (simp add: tr_def)
  have s: "\<forall>v\<in>set (status_reads tr). v \<notin> set STOP_STATUSES"
    using assms(2) by (simp add: tr_def STOP_STATUSES_def)
  have l: "\<forall>x\<in>set (last_reads tr). snd x < fst x" and o: "\<forall>x\<in>set (sends tr). snd x"
    using assms(3,4) by (simp_all add: tr_def)
  have b: "\<forall>i\<in>set (1 # js). 1 \<le> i \<and> i \<le> 8"
    by (simp add: js_def)
  have l8: "last (1 # js) = 8"
    by (simp add: js_def)
  from run_observed_good [OF loop py_now_le n b s l o] l8
  obtain s0 where
    a: "sends tr = map (\<lambda>i. (i, True)) (1 # js)"
    and w: "writes tr = concat (map (\<lambda>i. writes (send_puts (env i) i)) (1 # js))"
    and c: "out = Finished"
    and e: "st' = replay (send_puts (env 8) 8) s0"
    by auto
  have k: "(8::int) \<in> set EMAIL_TEMPLATE_KEYS"
    by (simp add: EMAIL_TEMPLATE_KEYS_def)
  have r: "put_last_ok (env 8) \<Longrightarrow> recorded st' = 8"
    using e recorded_after_puts [OF k, of "env 8" s0] by simp
  have t: "put_status_ok (env 8) \<Longrightarrow> recorded_status st' = JStr ''Voltooid''"
    using e by (simp add: recorded_status_after_puts)
  have w': "writes tr
      = [(KEY_laatste_email, JStr ''Email 1''), (KEY_laatste_email, JStr ''Email 2''),
         (KEY_laatste_email, JStr ''Email 3''), (KEY_laatste_email, JStr ''Email 4''),
         (KEY_laatste_email, JStr ''Email 5''), (KEY_laatste_email, JStr ''Email 6''),
         (KEY_laatste_email, JStr ''Email 7''), (KEY_laatste_email, JStr ''Email 8''),
         (KEY_email_sequence_status, JStr ''Voltooid'')]"
    using w by (simp add: js_def writes_send_puts py_str_int_1_8)
  have a': "sends tr
      = [(1, True), (2, True), (3, True), (4, True), (5, True), (6, True), (7, True), (8, True)]"
    using a by (simp add: js_def)
  show ?thesis
    using a' w' c r t unfolding tr_def st'_def out_def by simp
qed

theorem uncancelled_run_sends_all_witness:
  "status_reads (trace (run_2026 env_ok deal_new)) = replicate 8 (JStr ''Actief'')
    \<and> sends (trace (run_2026 env_ok deal_new))
      = [(1, True), (2, True), (3, True), (4, True), (5, True), (6, True), (7, True), (8, True)]
    \<and> recorded (final_deal (run_2026 env_ok deal_new)) = 8
    \<and> recorded_status (final_deal (run_2026 env_ok deal_new)) = JStr ''Voltooid''
    \<and> result (run_2026 env_ok deal_new) = Finished"
proof -
  have h0: "status_reads (trace (run_2026 env_ok deal_new)) = replicate 8 (JStr ''Actief'')"
    by code_simp
  then have h0': "status_reads (trace (run_2026 env_ok deal_new)) \<noteq> []"
    by simp
  have h1: "\<forall>v\<in>set (status_reads (trace (run_2026 env_ok deal_new))).
              v \<noteq> JStr ''Gepauzeerd'' \<and> v \<noteq> JStr ''Voltooid''"
    by code_simp
  have h2: "\<forall>x\<in>set (last_reads (trace (run_2026 env_ok deal_new))). snd x < fst x"
    by code_simp
  have h3: "\<forall>x\<in>set (sends (trace (run_2026 env_ok deal_new))). snd x"
    by code_simp
  have h4: "put_last_ok (env_ok 8)" "put_status_ok (env_ok 8)"
    by (simp_all add: env_ok_def)
  show ?thesis
    using uncancelled_run_sends_all [OF h0' h1 h2 h3] h0 h4 by simp
qed

text \<open>
  C1 as stated fails: every status read returns \<open>Actief\<close>, every read of the last e-mail
  shows the e-mail before, every send succeeds, but the two PUT requests after e-mail 8
  are not committed (\<^verbatim>\<open>update_deal_field\<close> returns a false value, which
  \<^verbatim>\<open>send_sequence_email\<close> does not look at): the deal still records e-mail 7 and the status
  \<open>Actief\<close>.
\<close>

theorem uncommitted_last_write_counterexample:
  "status_reads (trace (run_2026 env_put8_down deal_new)) = replicate 8 (JStr ''Actief'')
    \<and> last_reads (trace (run_2026 env_put8_down deal_new))
      = [(1, 0), (2, 1), (3, 2), (4, 3), (5, 4), (6, 5), (7, 6), (8, 7)]
    \<and> sends (trace (run_2026 env_put8_down deal_new))
      = [(1, True), (2, True), (3, True), (4, True), (5, True), (6, True), (7, True), (8, True)]
    \<and> recorded (final_deal (run_2026 env_put8_down deal_new)) = 7
    \<and> recorded_status (final_deal (run_2026 env_put8_down deal_new)) = JStr ''Actief''"
  by code_simp

text \<open>
  C2 (amended).  If the status that the check of e-mail \<open>i\<close> reads is
  \<open>Gepauzeerd\<close> or \<open>Voltooid\<close>, the run returns at once: the status read is the last
  thing that happens, every call of \<^verbatim>\<open>send_sequence_email\<close> and every write of the run
  belongs to an earlier e-mail.
\<close>

theorem stop_on_status_read:
  assumes "StatusRead i v \<in> set (trace (process_email_sequence p d now0 env st))"
    and "v = JStr ''Gepauzeerd'' \<or> v = JStr ''Voltooid''"
  shows "result (process_email_sequence p d now0 env st) = Stopped
    \<and> (\<exists>pre. trace (process_email_sequence p d now0 env st) = pre @ [StatusRead i v])
    \<and> (\<forall>j ok. Send j ok \<in> set (trace (process_email_sequence p d now0 env st)) \<longrightarrow> j < i)
    \<and> (\<forall>j k w c. Put j k w c \<in> set (trace (process_email_sequence p d now0 env st)) \<longrightarrow> j < i)"
proof -
  have stopv: "v \<in> set STOP_STATUSES"
    using assms(2) by (auto simp: STOP_STATUSES_def)
  from assms(1) obtain t1 st1 tt1 evs st2 tt2 r t3 where
    step: "sequence_step p (case strptime_ymd d of Some x \<Rightarrow> x | None \<Rightarrow> py_now now0) (env i) (entry i)
       st1 tt1 = (evs, st2, tt2, r)"
    and ev: "StatusRead i v \<in> set evs"
    and tr: "trace (process_email_sequence p d now0 env st) = t1 @ evs @ t3"
    and t1: "\<forall>e\<in>set t1. tag e < i"
    and ret: "r = Return \<Longrightarrow> t3 = [] \<and> result (process_email_sequence p d now0 env st) = Stopped"
    by (rule step_view [where ev = "StatusRead i v"]) simp_all
  have r: "r = Return"
    using step_status_read [OF step ev] stopv by simp
  from step_stop [OF step [unfolded r]] obtain pre v' where
    evs: "evs = pre @ [StatusRead i v']" and
    pre: "\<forall>j ok. Send j ok \<notin> set pre" "\<forall>j k w c. Put j k w c \<notin> set pre"
    by auto
  have "StatusRead i v' \<in> set evs"
    using evs by simp
  from step_status_read [OF step this] step_status_read [OF step ev] have "v' = v"
    by simp
  have tr': "trace (process_email_sequence p d now0 env st) = (t1 @ pre) @ [StatusRead i v]"
    using tr ret [OF r] evs \<open>v' = v\<close> by simp
  have "\<forall>j ok. Send j ok \<in> set (t1 @ pre) \<longrightarrow> j < i"
    using t1 pre(1) by fastforce
  moreover have "\<forall>j k w c. Put j k w c \<in> set (t1 @ pre) \<longrightarrow> j < i"
    using t1 pre(2) by fastforce
  ultimately show ?thesis
    using tr' ret [OF r] by auto
qed

theorem stop_on_status_read_witness:
  "StatusRead 2 (JStr ''Gepauzeerd'')
     \<in> set (trace (run_2026 env_pause2 deal_new))
   \<and> result (run_2026 env_pause2 deal_new) = Stopped
   \<and> (\<exists>pre. trace (run_2026 env_pause2 deal_new)
          = pre @ [StatusRead 2 (JStr ''Gepauzeerd'')])"
proof -
  have h: "StatusRead 2 (JStr ''Gepauzeerd'')
     \<in> set (trace (run_2026 env_pause2 deal_new))"
    by code_simp
  show ?thesis
    using h stop_on_status_read [OF h] by simp
qed

text \<open>
  C2 as stated fails: the deal says \<open>Gepauzeerd\<close> and nobody changes it, the GET of the
  check of e-mail 1 gets no answer, and e-mail 1 goes out.
\<close>

theorem stored_pause_counterexample:
  "recorded_status deal_paused = JStr ''Gepauzeerd''
   \<and> ext_writes (env_get1_down 1) = []
   \<and> Send 1 True
       \<in> set (trace (run_2026 env_get1_down deal_paused))"
  by code_simp

text \<open>
  C3 (amended).  When the check of e-mail \<open>i\<close> reads a last e-mail number \<open>l\<close> with
  \<open>i \<le> l\<close>, the run neither calls \<^verbatim>\<open>send_sequence_email\<close> for e-mail \<open>i\<close> nor writes anything
  for it, and goes on with the next e-mail (after e-mail 8 the loop ends regularly).
  Hence a second run on the deal as the first run left it, with nobody changing the deal
  and with every read of the last e-mail answered with the stored deal, calls
  \<^verbatim>\<open>send_sequence_email\<close> only for e-mails whose number is above the number the deal
  recorded.
\<close>

theorem recorded_step_not_resent:
  "(LastRead i l \<in> set (trace (process_email_sequence p d now0 env st)) \<and> i \<le> l \<longrightarrow>
      (\<forall>ok. Send i ok \<notin> set (trace (process_email_sequence p d now0 env st)))
      \<and> (\<forall>k w c. Put i k w c \<notin> set (trace (process_email_sequence p d now0 env st)))
      \<and> (i < 8 \<longrightarrow> (\<exists>v. StatusRead (i + 1) v \<in> set (trace (process_email_sequence p d now0 env st))))
      \<and> (i = 8 \<longrightarrow> result (process_email_sequence p d now0 env st) = Finished))
   \<and> ((\<forall>j\<in>{1..8}. last_get (env2 j) = Fresh \<and> ext_writes (env2 j) = []) \<longrightarrow>
      (\<forall>j ok. Send j ok \<in> set (trace (process_email_sequence p d2 now2 env2
                  (final_deal (process_email_sequence p d now0 env st))))
         \<longrightarrow> recorded (final_deal (process_email_sequence p d now0 env st)) < j))"
proof -
  have b: "recorded st2 < j"
    if e: "\<forall>j\<in>{1..8}. last_get (env2 j) = Fresh \<and> ext_writes (env2 j) = []"
      and s: "Send j ok \<in> set (trace (process_email_sequence p d2 now2 env2 st2))"
    for j ok st2
  proof -
    have "\<forall>j\<in>{1..8}. last_get (env2 j) = Fresh \<and> KEY_laatste_email \<notin> fst ` set (ext_writes (env2 j))"
      using e by simp
    from run_sent_bounds [OF this, of st2 p d2 now2] s show ?thesis
      by (auto simp: sends_set [symmetric])
  qed
  show ?thesis
    using recorded_step_is_skipped [of i l p d now0 env st] b by blast
qed

theorem recorded_step_not_resent_witness:
  "LastRead 1 5 \<in> set (trace (run_2026 env_smtp_down_from6 deal_after_5))
   \<and> Send 1 True \<notin> set (trace (run_2026 env_smtp_down_from6 deal_after_5))
   \<and> recorded (final_deal (run_2026 env_smtp_down_from6 deal_after_5)) = 5
   \<and> Send 6 True
       \<in> set (trace (run_2026 env_ok (final_deal (run_2026 env_smtp_down_from6 deal_after_5))))
   \<and> Send 5 True
       \<notin> set (trace (run_2026 env_ok (final_deal (run_2026 env_smtp_down_from6 deal_after_5))))"
proof -
  have h1: "LastRead 1 5 \<in> set (trace (run_2026 env_smtp_down_from6 deal_after_5))"
    by code_simp
  have h2: "\<forall>j\<in>{1..8}. last_get (env_ok j) = Fresh \<and> ext_writes (env_ok j) = []"
    by (simp add: env_ok_def)
  have h3: "recorded (final_deal (run_2026 env_smtp_down_from6 deal_after_5)) = 5"
    by code_simp
  have h4: "Send 6 True
       \<in> set (trace (run_2026 env_ok (final_deal (run_2026 env_smtp_down_from6 deal_after_5))))"
    by code_simp
  show ?thesis
    using h1 h2 h3 h4
      recorded_step_not_resent [of 1 5 "Some ''secret''" "''2026-11-04''" 63929347201000000
        env_smtp_down_from6 deal_after_5 env_ok "''2026-11-04''" 63929347201000000]
    by fastforce
qed

text \<open>
  C3 as stated fails in its second half: the first run leaves the deal as it was, with
  e-mail 5 recorded; in the second run the GET requests of the first check get no answer,
  \<^verbatim>\<open>get_last_email_sent\<close> returns 0, and e-mail 1 goes out.
\<close>

theorem rerun_failed_read_counterexample:
  "final_deal (run_2026 env_smtp_down_from6 deal_after_5) = deal_after_5
   \<and> recorded (final_deal (run_2026 env_smtp_down_from6 deal_after_5)) = 5
   \<and> ext_writes (env_get1_down 1) = []
   \<and> Send 1 True
       \<in> set (trace (run_2026 env_get1_down (final_deal (run_2026 env_smtp_down_from6 deal_after_5))))"
  by code_simp

text \<open>
  C4 (amended).  A start date that \<^verbatim>\<open>strptime\<close> refuses does not end the run, and
  nothing is raised: the clock reading at the start takes the place of the start date
  and the schedule is processed from there.  The check of e-mail 1 takes place; the run
  ends regularly or at a status check that says stop; when the clock is read again
  within the first day, the run sleeps until one day after its start; and when no status
  read says stop and every read of the last e-mail lies below its e-mail,
  \<^verbatim>\<open>send_sequence_email\<close> is called for each of the eight e-mails in order.
\<close>

theorem unparsable_start_uses_clock:
  assumes "strptime_ymd d = None"
  shows "(\<exists>v. StatusRead 1 v \<in> set (trace (process_email_sequence p d now0 env st)))
    \<and> (result (process_email_sequence p d now0 env st) = Finished
        \<or> result (process_email_sequence p d now0 env st) = Stopped)
    \<and> (py_now now0 \<le> py_now (now (env 1)) \<and> py_now (now (env 1)) < py_now now0 + usec_per_day
        \<longrightarrow> Sleep 1 (py_now now0 + usec_per_day - py_now (now (env 1)))
              \<in> set (trace (process_email_sequence p d now0 env st)))
    \<and> ((\<forall>v\<in>set (status_reads (trace (process_email_sequence p d now0 env st))).
            v \<noteq> JStr ''Gepauzeerd'' \<and> v \<noteq> JStr ''Voltooid'')
        \<and> (\<forall>x\<in>set (last_reads (trace (process_email_sequence p d now0 env st))). snd x < fst x)
       \<longrightarrow> map fst (sends (trace (process_email_sequence p d now0 env st))) = [1, 2, 3, 4, 5, 6, 7, 8]
           \<and> result (process_email_sequence p d now0 env st) = Finished)"
proof -
  define tr where "tr = trace (process_email_sequence p d now0 env st)"
  define st' where "st' = final_deal (process_email_sequence p d now0 env st)"
  define out where "out = result (process_email_sequence p d now0 env st)"
  define js where "js = [2, 3, 4, 5, 6, 7, (8::int)]"
  obtain tt where "email_loop p (case strptime_ymd d of Some x \<Rightarrow> x | None \<Rightarrow> py_now now0) env
       EMAIL_SCHEDULE st (py_now now0)
       = (trace (process_email_sequence p d now0 env st), final_deal (process_email_sequence p d now0 env st),
          tt, result (process_email_sequence p d now0 env st))"
    by (rule run_loop)
  then have loop: "email_loop p (py_now now0) env EMAIL_SCHEDULE st (py_now now0) = (tr, st', tt, out)"
    using assms by (simp add: tr_def st'_def out_def)
  have begun: "started (py_now now0) (py_now now0)"
    using py_now_le [of now0] limits(3) by (simp add: started_def)
  from started_loop [OF loop begun schedule_days]
  have no_raise: "out \<noteq> Raised OverflowError"
    by simp
  have fin: "out = Finished \<or> out = Stopped"
  proof (cases out)
    case (Raised err)
    with no_raise show ?thesis by (cases err) simp
  qed simp_all
  obtain evs st1 t1 r where
    step: "sequence_step p (py_now now0) (env 1) (entry 1) st (py_now now0) = (evs, st1, t1, r)"
    by (metis prod_cases4)
  have "0 \<le> day (entry 1)" "day (entry 1) \<le> 30"
    using day_entry_bounds [of 1] by simp_all
  from started_step [OF step begun this] have r: "r \<noteq> Raise OverflowError"
    by simp
  have sub: "set evs \<subseteq> set tr"
    using loop step r
    by (cases r) (auto simp: EMAIL_SCHEDULE_entries upto_rec1 split: prod.splits)
  have first: "\<exists>v. StatusRead 1 v \<in> set tr"
    using status_read_in_step [OF step r] sub by auto
  have wait: "Sleep 1 (py_now now0 + usec_per_day - py_now (now (env 1))) \<in> set tr"
    if "py_now now0 \<le> py_now (now (env 1))" "py_now (now (env 1)) < py_now now0 + usec_per_day"
  proof -
    have "Sleep 1 (py_now now0 + usec_per_day - py_now (now (env 1))) \<in> set evs"
      using step r that
      by (auto simp: sequence_step_eq Let_def entry_def max_def split: if_splits)
    with sub show ?thesis by blast
  qed
  have all: "map fst (sends tr) = [1, 2, 3, 4, 5, 6, 7, 8] \<and> out = Finished"
    if s: "\<forall>v\<in>set (status_reads tr). v \<noteq> JStr ''Gepauzeerd'' \<and> v \<noteq> JStr ''Voltooid''"
      and l: "\<forall>x\<in>set (last_reads tr). snd x < fst x"
  proof -
    have loop': "email_loop p (py_now now0) env (map entry (1 # js)) st (py_now now0) = (tr, st', tt, out)"
      using loop by (simp add: EMAIL_SCHEDULE_entries upto_rec1 js_def)
    have b: "\<forall>i\<in>set (1 # js). 1 \<le> i \<and> i \<le> 8"
      by (simp add: js_def)
    have s': "\<forall>v\<in>set (status_reads tr). v \<notin> set STOP_STATUSES"
      using s by (simp add: STOP_STATUSES_def)
    from loop_observed_attempts [OF loop' begun b s' l] show ?thesis
      by (simp add: js_def)
  qed
  show ?thesis
    using first fin wait all unfolding tr_def out_def by blast
qed

theorem unparsable_start_uses_clock_witness:
  "strptime_ymd ''04-11-2026'' = None
   \<and> StatusRead 1 (JStr ''Actief'')
       \<in> set (trace (process_email_sequence (Some ''secret'') ''04-11-2026'' 63929347201000000 env_ok deal_new))
   \<and> Sleep 1 86399000000
       \<in> set (trace (process_email_sequence (Some ''secret'') ''04-11-2026'' 63929347201000000 env_ok deal_new))
   \<and> map fst (sends (trace (process_email_sequence (Some ''secret'') ''04-11-2026'' 63929347201000000
         env_ok deal_new))) = [1, 2, 3, 4, 5, 6, 7, 8]
   \<and> result (process_email_sequence (Some ''secret'') ''04-11-2026'' 63929347201000000 env_ok deal_new)
     = Finished"
proof -
  have h: "strptime_ymd ''04-11-2026'' = None"
    by code_simp
  have h1: "\<forall>v\<in>set (status_reads (trace (process_email_sequence (Some ''secret'') ''04-11-2026''
              63929347201000000 env_ok deal_new))). v \<noteq> JStr ''Gepauzeerd'' \<and> v \<noteq> JStr ''Voltooid''"
    by code_simp
  have h2: "\<forall>x\<in>set (last_reads (trace (process_email_sequence (Some ''secret'') ''04-11-2026''
              63929347201000000 env_ok deal_new))). snd x < fst x"
    by code_simp
  have h3: "StatusRead 1 (JStr ''Actief'')
       \<in> set (trace (process_email_sequence (Some ''secret'') ''04-11-2026'' 63929347201000000 env_ok deal_new))"
    by code_simp
  have h5: "py_now 63929347201000000 \<le> py_now (now (env_ok 1))
      \<and> py_now (now (env_ok 1)) < py_now 63929347201000000 + usec_per_day"
    by code_simp
  have h6: "py_now 63929347201000000 + usec_per_day - py_now (now (env_ok 1)) = 86399000000"
    by code_simp
  show ?thesis
    using h h1 h2 h3 h5 h6
      unparsable_start_uses_clock [OF h, where p = "Some ''secret''" and ?now0.0 = 63929347201000000
        and env = env_ok and st = deal_new]
    by simp
qed

text \<open>
  C4 as stated fails: the date \<open>04-11-2026\<close> does not match the format, and the run sends
  all eight e-mails and writes to the deal.
\<close>

theorem unparsable_start_counterexample:
  "strptime_ymd ''04-11-2026'' = None
   \<and> sends (trace (process_email_sequence (Some ''secret'') ''04-11-2026'' 63929347201000000 env_ok deal_new))
     = [(1, True), (2, True), (3, True), (4, True), (5, True), (6, True), (7, True), (8, True)]
   \<and> Put 1 KEY_laatste_email (JStr ''Email 1'') True
       \<in> set (trace (process_email_sequence (Some ''secret'') ''04-11-2026'' 63929347201000000 env_ok deal_new))
   \<and> result (process_email_sequence (Some ''secret'') ''04-11-2026'' 63929347201000000 env_ok deal_new)
     = Finished"
  by code_simp

text \<open>
  C5.  When \<^verbatim>\<open>send_sequence_email\<close> returns \<open>False\<close> for e-mail \<open>i\<close> (no password, no
  template, or an exception of the SMTP transaction, which the function catches), the run
  makes no write for e-mail \<open>i\<close> and goes on: the check of e-mail \<open>i + 1\<close> takes place, and
  after a failure of the last e-mail the loop ends regularly.  The failure is not
  passed on to the caller: the run goes on as after a send that worked.
\<close>

theorem failed_send_goes_on:
  assumes "Send i False \<in> set (trace (process_email_sequence p d now0 env st))"
  shows "(\<forall>k w c. Put i k w c \<notin> set (trace (process_email_sequence p d now0 env st)))
    \<and> (i < 8 \<longrightarrow> (\<exists>v. StatusRead (i + 1) v \<in> set (trace (process_email_sequence p d now0 env st))))
    \<and> (i = 8 \<longrightarrow> result (process_email_sequence p d now0 env st) = Finished)"
proof -
  from assms obtain t1 st1 tt1 evs st2 tt2 r t3 where
    step: "sequence_step p (case strptime_ymd d of Some x \<Rightarrow> x | None \<Rightarrow> py_now now0) (env i) (entry i)
       st1 tt1 = (evs, st2, tt2, r)"
    and ev: "Send i False \<in> set evs"
    and tr: "trace (process_email_sequence p d now0 env st) = t1 @ evs @ t3"
    and t1: "\<forall>e\<in>set t1. tag e < i"
    and t3: "\<forall>e\<in>set t3. i < tag e"
    and nxt: "r = Next \<Longrightarrow> i < 8 \<Longrightarrow> \<exists>v. StatusRead (i + 1) v \<in> set t3"
    and fin: "r = Next \<Longrightarrow> \<not> i < 8 \<Longrightarrow> result (process_email_sequence p d now0 env st) = Finished"
    by (rule step_view [where ev = "Send i False"]) simp_all
  from step_send_failed [OF step ev] have nb: "r = Next" and np: "\<forall>j k w c. Put j k w c \<notin> set evs"
    by simp_all
  have "\<forall>k w c. Put i k w c \<notin> set (t1 @ evs @ t3)"
    using t1 t3 np by fastforce
  then show ?thesis
    using tr nxt [OF nb] fin [OF nb] by auto
qed

theorem failed_send_goes_on_witness:
  "Send 3 False \<in> set (trace (run_2026 env_smtp3_down deal_new))
   \<and> Put 3 KEY_laatste_email (JStr ''Email 3'') True
       \<notin> set (trace (run_2026 env_smtp3_down deal_new))
   \<and> (\<exists>v. StatusRead 4 v \<in> set (trace (run_2026 env_smtp3_down deal_new)))"
proof -
  have h: "Send 3 False \<in> set (trace (run_2026 env_smtp3_down deal_new))"
    by code_simp
  show ?thesis
    using h failed_send_goes_on [OF h] by simp
qed

text \<open>
  C6.  In any number of runs for one deal, one after the other: when every GET of
  \<^verbatim>\<open>get_last_email_sent\<close> is answered with the stored deal, every PUT of the field
  \<open>laatste_email\<close> is committed and nobody but the sequencer writes that field, no e-mail of
  the schedule goes out twice.
\<close>

theorem no_email_delivered_twice:
  assumes "\<forall>r\<in>set rs. \<forall>i\<in>{1..8}. last_get (envs r i) = Fresh \<and> put_last_ok (envs r i)
             \<and> KEY_laatste_email \<notin> fst ` set (ext_writes (envs r i))"
  shows "distinct (delivered (fst (run_many p rs st)))"
  using run_many_sent_bounds [OF assms, of st p] by (simp add: strict_sorted_iff)

theorem no_email_delivered_twice_witness:
  "delivered (fst (run_many (Some ''secret'') runs_pause_resume deal_new)) = [1, 2, 3, 4, 5, 6, 7, 8]
   \<and> distinct (delivered (fst (run_many (Some ''secret'') runs_pause_resume deal_new)))"
proof -
  have h: "\<forall>r\<in>set runs_pause_resume. \<forall>i\<in>{1..8}. last_get (envs r i) = Fresh \<and> put_last_ok (envs r i)
             \<and> KEY_laatste_email \<notin> fst ` set (ext_writes (envs r i))"
    by (auto simp: runs_pause_resume_def env_pause2_def env_resume1_def env_ok_def)
  have "delivered (fst (run_many (Some ''secret'') runs_pause_resume deal_new)) = [1, 2, 3, 4, 5, 6, 7, 8]"
    by code_simp
  then show ?thesis
    using no_email_delivered_twice [OF h, of "Some ''secret''" deal_new] by simp
qed

text \<open>
  C7 (amended).  In any number of runs for one deal, one after the other, in which every
  GET of \<^verbatim>\<open>get_last_email_sent\<close> is answered with the stored deal, every write of the field
  \<open>laatste_email\<close> that the sequencer makes for an e-mail \<open>n\<close> finds a recorded number that is
  at most \<open>n\<close>, and does not lower it.  (Whether a PUT is committed and what other parties
  write into the deal is left open.)
\<close>

theorem writes_never_lower_record:
  assumes "\<forall>r\<in>set rs. \<forall>i\<in>{1..8}. last_get (envs r i) = Fresh"
  shows "writes_nondecreasing (fst (run_many p rs st)) st"
  using run_many_writes_nondecreasing [OF assms] by simp

theorem writes_never_lower_record_witness:
  "writes_nondecreasing (fst (run_many (Some ''secret'') runs_pause_resume deal_new)) deal_new
   \<and> Put 2 KEY_laatste_email (JStr ''Email 2'') True
       \<in> set (fst (run_many (Some ''secret'') runs_pause_resume deal_new))"
proof -
  have h: "\<forall>r\<in>set runs_pause_resume. \<forall>i\<in>{1..8}. last_get (envs r i) = Fresh"
    by (simp add: runs_pause_resume_def env_pause2_def env_resume1_def env_ok_def)
  have "Put 2 KEY_laatste_email (JStr ''Email 2'') True
       \<in> set (fst (run_many (Some ''secret'') runs_pause_resume deal_new))"
    by code_simp
  then show ?thesis
    using writes_never_lower_record [OF h, of "Some ''secret''" deal_new] by simp
qed

text \<open>
  C7 as stated fails: the deal records e-mail 5, the GET of the first check gets no
  answer, \<^verbatim>\<open>get_last_email_sent\<close> returns 0, e-mail 1 goes out again and the record is
  overwritten with \<open>Email 1\<close>.
\<close>

theorem failed_read_lowers_record_counterexample:
  "recorded deal_after_5 = 5
   \<and> Put 1 KEY_laatste_email (JStr ''Email 1'') True
       \<in> set (fst (run_many (Some ''secret'') runs_get1_down deal_after_5))
   \<and> \<not> writes_nondecreasing (fst (run_many (Some ''secret'') runs_get1_down deal_after_5)) deal_after_5"
  by code_simp



text \<open>
  C10.  When the GET of the status and the GET of the last e-mail at the check of
  e-mail \<open>i\<close> fail or bring no data, \<^verbatim>\<open>get_sequence_status\<close> returns the empty string and
  \<^verbatim>\<open>get_last_email_sent\<close> returns 0 (whatever the deal holds), \<^verbatim>\<open>send_sequence_email\<close> is
  called for e-mail \<open>i\<close>, and the run goes on after it.
\<close>

theorem failed_read_sends:
  assumes "StatusRead i v \<in> set (trace (process_email_sequence p d now0 env st))"
    and "read_fails (status_get (env i))"
    and "read_fails (last_get (env i))"
  shows "get_sequence_status (status_get (env i)) st' = JStr []
    \<and> get_last_email_sent (last_get (env i)) st' = 0
    \<and> v = JStr []
    \<and> LastRead i 0 \<in> set (trace (process_email_sequence p d now0 env st))
    \<and> (\<exists>ok. Send i ok \<in> set (trace (process_email_sequence p d now0 env st)))
    \<and> (i < 8 \<longrightarrow> (\<exists>w. StatusRead (i + 1) w \<in> set (trace (process_email_sequence p d now0 env st))))
    \<and> (i = 8 \<longrightarrow> result (process_email_sequence p d now0 env st) = Finished)"
proof -
  from assms(1) obtain t1 st1 tt1 evs st2 tt2 r t3 where
    step: "sequence_step p (case strptime_ymd d of Some x \<Rightarrow> x | None \<Rightarrow> py_now now0) (env i) (entry i)
       st1 tt1 = (evs, st2, tt2, r)"
    and ev: "StatusRead i v \<in> set evs"
    and tr: "trace (process_email_sequence p d now0 env st) = t1 @ evs @ t3"
    and nxt: "r = Next \<Longrightarrow> i < 8 \<Longrightarrow> \<exists>v. StatusRead (i + 1) v \<in> set t3"
    and fin: "r = Next \<Longrightarrow> \<not> i < 8 \<Longrightarrow> result (process_email_sequence p d now0 env st) = Finished"
    and rr: "r = Return \<or> r = Next"
    by (rule step_view [where ev = "StatusRead i v"]) simp_all
  have i: "1 \<le> email_num (entry i)"
    using run_tags [OF assms(1)] by simp
  have "r \<noteq> Raise OverflowError"
    using rr by auto
  from step_read_fails [OF step this assms(2,3) i]
  have nb: "r = Next" and lr: "LastRead i 0 \<in> set evs" and sn: "\<exists>ok. Send i ok \<in> set evs"
    by simp_all
  have v: "v = JStr []"
    using step_status_read [OF step ev] read_fails_readers [OF assms(2)] by simp
  show ?thesis
    using read_fails_readers [OF assms(2)] read_fails_readers [OF assms(3)]
      v tr lr sn nxt [OF nb] fin [OF nb]
    by auto
qed

theorem failed_read_sends_witness:
  "StatusRead 1 (JStr []) \<in> set (trace (run_2026 env_get1_down deal_new))
   \<and> read_fails (status_get (env_get1_down 1))
   \<and> read_fails (last_get (env_get1_down 1))
   \<and> get_last_email_sent (last_get (env_get1_down 1)) deal_after_5 = 0
   \<and> LastRead 1 0 \<in> set (trace (run_2026 env_get1_down deal_new))
   \<and> (\<exists>ok. Send 1 ok \<in> set (trace (run_2026 env_get1_down deal_new)))"
proof -
  have h1: "StatusRead 1 (JStr []) \<in> set (trace (run_2026 env_get1_down deal_new))"
    by code_simp
  have h2: "read_fails (status_get (env_get1_down 1))"
    by (simp add: env_get1_down_def)
  have h3: "read_fails (last_get (env_get1_down 1))"
    by (simp add: env_get1_down_def)
  show ?thesis
    using h1 h2 h3 failed_read_sends [OF h1 h2 h3, of deal_after_5] by simp
qed

end
